theory Spec2Isabelle
  imports Main "HOL-Library.AList" "HOL-Library.Multiset" "HOL-Library.Sublist"
begin

section \<open>Strings as the line-split engine uses them\<close>

text \<open>
  The engine (\<^verbatim>\<open>src/line-split/extract.ts\<close>, \<^verbatim>\<open>src/line-split/assemble.ts\<close>) only
  splits strings at line feeds, joins them again, looks at the first character of a
  line and drops it. A JavaScript string is modelled as a \<^typ>\<open>string\<close>.
\<close>

abbreviation nl :: char where
  "nl \<equiv> CHR 0x0A"

text \<open>\<^verbatim>\<open>s.split('\n')\<close>: the empty string gives one empty line.\<close>

fun split_nl :: "string \<Rightarrow> string list" where
  "split_nl [] = [[]]"
| "split_nl (c # cs) =
     (if c = nl then [] # split_nl cs
      else (c # hd (split_nl cs)) # tl (split_nl cs))"

text \<open>\<^verbatim>\<open>xs.join('\n')\<close>: the empty array gives the empty string.\<close>

fun join_nl :: "string list \<Rightarrow> string" where
  "join_nl [] = []"
| "join_nl [l] = l"
| "join_nl (l # m # ls) = l @ nl # join_nl (m # ls)"

text \<open>\<^verbatim>\<open>line.startsWith(c)\<close> for a one-character \<open>c\<close>, and \<^verbatim>\<open>line.slice(1)\<close>.\<close>

definition startsWith :: "string \<Rightarrow> char \<Rightarrow> bool" where
  "startsWith line c = (case line of [] \<Rightarrow> False | x # _ \<Rightarrow> x = c)"

definition slice1 :: "string \<Rightarrow> string" where
  "slice1 line = drop 1 line"

text \<open>\<^verbatim>\<open>s.includes(pat)\<close>: \<open>pat\<close> occurs somewhere in \<open>s\<close>.\<close>

fun includes_str :: "string \<Rightarrow> string \<Rightarrow> bool" where
  "includes_str [] pat = (pat = [])"
| "includes_str (c # cs) pat = (take (length pat) (c # cs) = pat \<or> includes_str cs pat)"

text \<open>
  The regular expression class \<^verbatim>\<open>\d\<close> (without the unicode flag) is the ten ASCII
  digits; \<^verbatim>\<open>parseInt\<close> of a nonempty run of digits is its decimal value. Line numbers
  are taken exactly, as JavaScript does below \<open>2^53\<close>.
\<close>

definition isDigit :: "char \<Rightarrow> bool" where
  "isDigit c = (c \<in> set ''0123456789'')"

definition digitVal :: "char \<Rightarrow> nat" where
  "digitVal c = of_char c - 48"

definition parseInt :: "string \<Rightarrow> nat" where
  "parseInt ds = foldl (\<lambda>n c. 10 * n + digitVal c) 0 ds"

text \<open>
  \<^verbatim>\<open>header.match(/@@ -(\d+)/)\<close>: the digits captured by the leftmost match, if any.
  The run of digits is greedy, so the capture is the longest run after the marker.
\<close>

fun matchOriginalStart :: "string \<Rightarrow> string option" where
  "matchOriginalStart [] = None"
| "matchOriginalStart (c # cs) =
     (if take 4 (c # cs) = ''@@ -'' \<and> takeWhile isDigit (drop 4 (c # cs)) \<noteq> []
      then Some (takeWhile isDigit (drop 4 (c # cs)))
      else matchOriginalStart cs)"

text \<open>
  \<^verbatim>\<open>header.match(/@@ -(\d+)(?:,\d+)? \+(\d+)(?:,\d+)? @@/)\<close>. After a run of digits
  the expression asks for a comma or a space, and after the optional count for a space,
  so no shorter run and no skipped count can match where the greedy choice fails:
  matching at one position is the deterministic scan below, and the match is the
  leftmost position where it succeeds.
\<close>

definition skipCount :: "string \<Rightarrow> string" where
  "skipCount s =
     (case s of
        [] \<Rightarrow> s
      | c # cs \<Rightarrow> if c = CHR '','' \<and> takeWhile isDigit cs \<noteq> [] then dropWhile isDigit cs else s)"

definition matchHeaderAt :: "string \<Rightarrow> (string \<times> string) option" where
  "matchHeaderAt s =
     (if take 4 s = ''@@ -'' then
        (let s1 = drop 4 s;
             d1 = takeWhile isDigit s1;
             s2 = skipCount (dropWhile isDigit s1)
         in if d1 \<noteq> [] \<and> take 2 s2 = '' +'' then
              (let s3 = drop 2 s2;
                   d2 = takeWhile isDigit s3;
                   s4 = skipCount (dropWhile isDigit s3)
               in if d2 \<noteq> [] \<and> take 3 s4 = '' @@'' then Some (d1, d2) else None)
            else None)
      else None)"

fun matchHeader :: "string \<Rightarrow> (string \<times> string) option" where
  "matchHeader [] = None"
| "matchHeader (c # cs) =
     (case matchHeaderAt (c # cs) of
        Some m \<Rightarrow> Some m
      | None \<Rightarrow> matchHeader cs)"


section \<open>Data model\<close>

text \<open>
  \<^verbatim>\<open>ParsedHunk\<close> and \<^verbatim>\<open>ParsedFileDiff\<close> are declared in \<^verbatim>\<open>git.ts\<close>; the fields are
  the ones the engine reads. \<^verbatim>\<open>CommitPlan\<close> and \<^verbatim>\<open>HunkClassificationResult\<close> likewise.
  Field names carry a suffix where two records share a name.
\<close>

record ParsedHunk =
  id_h :: int
  header :: string
  content :: string
  startLine :: int

record ParsedFileDiff =
  filePath :: string
  fileHeader :: string
  hunks :: "ParsedHunk list"

record CommitPlan =
  id_p :: string
  message_p :: string
  description_p :: string

record LineClass =
  lineIndex :: int
  commitId_l :: string

record HunkClassificationResult =
  hunkId_c :: int
  lines_c :: "LineClass list"

datatype LineType = Plus | Minus

record LineRange =
  hunkId :: int
  startLineIdx :: int
  endLineIdx :: int
  type_r :: LineType
  lines_r :: "string list"
  startOriginalLineNum :: int
  startNewLineNum :: int

record FileChanges =
  filePath_f :: string
  ranges :: "LineRange list"

record CommitChanges =
  commitId :: string
  message :: string
  description :: string
  fileChanges :: "FileChanges list"

record AssembledPatch =
  commitId_a :: string
  message_a :: string
  description_a :: string
  patch :: string


section \<open>Content replay: \<^verbatim>\<open>buildFileContent\<close>\<close>

text \<open>
  \<^verbatim>\<open>selectedByHunk\<close>: for every range, every index from \<open>startLineIdx\<close> to
  \<open>endLineIdx\<close> is added to the set kept under the range's hunk id.
\<close>

definition selectedByHunk :: "LineRange list \<Rightarrow> (int \<rightharpoonup> int set)" where
  "selectedByHunk selectedRanges =
     fold (\<lambda>range m.
             m(hunkId range \<mapsto>
                 (case m (hunkId range) of None \<Rightarrow> {} | Some s \<Rightarrow> s)
                   \<union> {startLineIdx range .. endLineIdx range}))
          selectedRanges Map.empty"

text \<open>\<^verbatim>\<open>selectedByHunk.get(hunk.id) || new Set()\<close>.\<close>

definition getSelected :: "(int \<rightharpoonup> int set) \<Rightarrow> int \<Rightarrow> int set" where
  "getSelected selByHunk hid = (case selByHunk hid of Some s \<Rightarrow> s | None \<Rightarrow> {})"

text \<open>The loop that copies the lines before a hunk; the state is \<open>(result, originalIdx)\<close>.\<close>

function copyBefore :: "string list \<Rightarrow> int \<Rightarrow> string list \<times> nat \<Rightarrow> string list \<times> nat" where
  "copyBefore originalLines hunkStartLine (result, originalIdx) =
     (if int originalIdx < hunkStartLine \<and> originalIdx < length originalLines
      then copyBefore originalLines hunkStartLine
             (result @ [originalLines ! originalIdx], Suc originalIdx)
      else (result, originalIdx))"
  by pat_completeness auto
termination
  by (relation "measure (\<lambda>(ol, h, r, i). length ol - i)") auto

text \<open>The loop that copies what is left after the last hunk.\<close>

function copyRest :: "string list \<Rightarrow> string list \<times> nat \<Rightarrow> string list \<times> nat" where
  "copyRest originalLines (result, originalIdx) =
     (if originalIdx < length originalLines
      then copyRest originalLines (result @ [originalLines ! originalIdx], Suc originalIdx)
      else (result, originalIdx))"
  by pat_completeness auto
termination
  by (relation "measure (\<lambda>(ol, r, i). length ol - i)") auto

text \<open>The body of the loop over the lines of a hunk, after the check for a last empty line.\<close>

definition processLine ::
  "string list \<Rightarrow> int set \<Rightarrow> nat \<Rightarrow> string \<Rightarrow> string list \<times> nat \<Rightarrow> string list \<times> nat" where
  "processLine originalLines selected lineIdx line st =
     (case st of (result, originalIdx) \<Rightarrow>
        if startsWith line CHR ''+'' then
          (if int lineIdx \<in> selected then (result @ [slice1 line], originalIdx)
           else (result, originalIdx))
        else if startsWith line CHR ''-'' then
          (if int lineIdx \<in> selected then (result, Suc originalIdx)
           else ((if originalIdx < length originalLines
                  then result @ [originalLines ! originalIdx] else result),
                 Suc originalIdx))
        else if startsWith line CHR '' '' then
          ((if originalIdx < length originalLines
            then result @ [originalLines ! originalIdx] else result),
           Suc originalIdx)
        else (result, originalIdx))"

function hunkLoop ::
  "string list \<Rightarrow> int set \<Rightarrow> string list \<Rightarrow> nat \<Rightarrow> string list \<times> nat \<Rightarrow> string list \<times> nat" where
  "hunkLoop originalLines selected hunkLines lineIdx st =
     (if lineIdx < length hunkLines then
        (if hunkLines ! lineIdx = [] \<and> lineIdx = length hunkLines - 1
         then hunkLoop originalLines selected hunkLines (Suc lineIdx) st
         else hunkLoop originalLines selected hunkLines (Suc lineIdx)
                (processLine originalLines selected lineIdx (hunkLines ! lineIdx) st))
      else st)"
  by pat_completeness auto
termination
  by (relation "measure (\<lambda>(ol, sel, hl, i, st). length hl - i)") auto

declare copyBefore.simps [simp del] copyRest.simps [simp del] hunkLoop.simps [simp del]

definition hunkStartLine :: "ParsedHunk \<Rightarrow> int" where
  "hunkStartLine hunk =
     (case matchOriginalStart (header hunk) of
        Some ds \<Rightarrow> int (parseInt ds) - 1
      | None \<Rightarrow> 0)"

definition processHunk ::
  "string list \<Rightarrow> (int \<rightharpoonup> int set) \<Rightarrow> ParsedHunk \<Rightarrow> string list \<times> nat \<Rightarrow> string list \<times> nat" where
  "processHunk originalLines selByHunk hunk st =
     hunkLoop originalLines (getSelected selByHunk (id_h hunk)) (split_nl (content hunk)) 0
       (copyBefore originalLines (hunkStartLine hunk) st)"

definition contentLines :: "string \<Rightarrow> string list" where
  "contentLines originalContent = (if originalContent = [] then [] else split_nl originalContent)"

definition buildFileContent :: "string \<Rightarrow> ParsedHunk list \<Rightarrow> LineRange list \<Rightarrow> string" where
  "buildFileContent originalContent hunkList selectedRanges =
     (if hunkList = [] then originalContent
      else join_nl (fst (copyRest (contentLines originalContent)
             (fold (processHunk (contentLines originalContent) (selectedByHunk selectedRanges))
                hunkList ([], 0)))))"



section \<open>Partitioning: \<^verbatim>\<open>extractChanges\<close>\<close>

text \<open>
  A \<^verbatim>\<open>TypeError\<close> is what JavaScript throws when a property of \<^verbatim>\<open>undefined\<close> is read:
  \<^verbatim>\<open>commits[0].id\<close> on an empty plan, and \<^verbatim>\<open>fileRanges.has\<close> when the commit id of a
  range is no key of \<^verbatim>\<open>commitFileRanges\<close>.
\<close>

datatype error = TypeError

text \<open>
  The key \<^verbatim>\<open>`${hunkId}:${lineIndex}`\<close> of the classification map is the pair of the two
  numbers: the decimal text of an integer holds no colon, so the text determines the pair.
  A later entry for the same key replaces an earlier one, as \<^verbatim>\<open>Map.set\<close> does.
\<close>

definition buildClassificationMap ::
  "HunkClassificationResult list \<Rightarrow> (int \<times> int \<rightharpoonup> string)" where
  "buildClassificationMap classifications =
     fold (\<lambda>hunkResult m.
             fold (\<lambda>line m'. m'((hunkId_c hunkResult, lineIndex line) \<mapsto> commitId_l line))
                  (lines_c hunkResult) m)
          classifications Map.empty"

text \<open>
  \<^verbatim>\<open>classMap.get(key) || commits[0].id\<close>: the right operand is evaluated when the left one
  is \<^verbatim>\<open>undefined\<close> or the empty string, and throws on an empty plan.
\<close>

definition firstCommitId :: "CommitPlan list \<Rightarrow> error + string" where
  "firstCommitId commits = (case commits of [] \<Rightarrow> Inl TypeError | c # _ \<Rightarrow> Inr (id_p c))"

definition commitFor :: "CommitPlan list \<Rightarrow> (int \<times> int \<rightharpoonup> string) \<Rightarrow> int \<times> int \<Rightarrow> error + string" where
  "commitFor commits classMap key =
     (case classMap key of
        None \<Rightarrow> firstCommitId commits
      | Some c \<Rightarrow> if c = [] then firstCommitId commits else Inr c)"

text \<open>
  \<^verbatim>\<open>commitFileRanges\<close> is a \<^verbatim>\<open>Map\<close> of \<^verbatim>\<open>Map\<close>s. A JavaScript \<^verbatim>\<open>Map\<close> is iterated in
  the order in which its keys were first set, and setting an existing key keeps its place:
  an association list under \<^const>\<open>AList.update\<close>.
\<close>

type_synonym RangesMap = "(string \<times> (string \<times> LineRange list) list) list"

record CurrentRange =
  commitId_cr :: string
  type_cr :: LineType
  startIdx :: nat
  lines_cr :: "string list"
  startOriginalLineNum_cr :: int
  startNewLineNum_cr :: int

definition rangeOf :: "int \<Rightarrow> CurrentRange \<Rightarrow> LineRange" where
  "rangeOf hid cr =
     \<lparr>hunkId = hid,
      startLineIdx = int (startIdx cr),
      endLineIdx = int (startIdx cr) + int (length (lines_cr cr)) - 1,
      type_r = type_cr cr,
      lines_r = lines_cr cr,
      startOriginalLineNum = startOriginalLineNum_cr cr,
      startNewLineNum = startNewLineNum_cr cr\<rparr>"

text \<open>
  \<^verbatim>\<open>flushRange\<close>, for the file at \<open>path\<close> and the hunk with id \<open>hid\<close>, on the
  current range \<open>cur\<close> and the map \<open>m\<close> (\<^verbatim>\<open>commitFileRanges\<close>). The caller resets
  \<^verbatim>\<open>currentRange\<close>.
\<close>

definition flushRange ::
  "string \<Rightarrow> int \<Rightarrow> CurrentRange option \<Rightarrow> RangesMap \<Rightarrow> error + RangesMap" where
  "flushRange path hid cur m =
     (case cur of
        None \<Rightarrow> Inr m
      | Some cr \<Rightarrow>
          (case map_of m (commitId_cr cr) of
             None \<Rightarrow> Inl TypeError
           | Some fileRanges \<Rightarrow>
               Inr (AList.update (commitId_cr cr)
                      (AList.update path
                         ((case map_of fileRanges path of None \<Rightarrow> [] | Some rs \<Rightarrow> rs)
                            @ [rangeOf hid cr])
                         fileRanges)
                      m)))"

record ScanState =
  currentRange :: "CurrentRange option"
  originalLineNum :: int
  newLineNum :: int
  commitFileRanges :: RangesMap

definition canExtend :: "CurrentRange option \<Rightarrow> string \<Rightarrow> LineType \<Rightarrow> nat \<Rightarrow> bool" where
  "canExtend cur cid ty lineIdx =
     (case cur of
        None \<Rightarrow> False
      | Some cr \<Rightarrow> commitId_cr cr = cid \<and> type_cr cr = ty
                   \<and> startIdx cr + length (lines_cr cr) = lineIdx)"

definition bumpCounter :: "LineType \<Rightarrow> ScanState \<Rightarrow> ScanState" where
  "bumpCounter ty st =
     (if ty = Plus then st\<lparr>newLineNum := newLineNum st + 1\<rparr>
      else st\<lparr>originalLineNum := originalLineNum st + 1\<rparr>)"

text \<open>The body of the loop over the lines of a hunk, after the check for a last empty line.\<close>

definition scanLine ::
  "string \<Rightarrow> int \<Rightarrow> CommitPlan list \<Rightarrow> (int \<times> int \<rightharpoonup> string) \<Rightarrow> nat \<Rightarrow> string
     \<Rightarrow> ScanState \<Rightarrow> error + ScanState" where
  "scanLine path hid commits classMap lineIdx line st =
     (if startsWith line CHR ''+'' \<or> startsWith line CHR ''-'' then
        (let ty = (if startsWith line CHR ''+'' then Plus else Minus) in
         case commitFor commits classMap (hid, int lineIdx) of
           Inl e \<Rightarrow> Inl e
         | Inr cid \<Rightarrow>
             if canExtend (currentRange st) cid ty lineIdx then
               Inr (bumpCounter ty
                 (st\<lparr>currentRange :=
                       map_option (\<lambda>cr. cr\<lparr>lines_cr := lines_cr cr @ [slice1 line]\<rparr>)
                         (currentRange st)\<rparr>))
             else
               (case flushRange path hid (currentRange st) (commitFileRanges st) of
                  Inl e \<Rightarrow> Inl e
                | Inr m \<Rightarrow>
                    Inr (bumpCounter ty
                      (st\<lparr>currentRange :=
                            Some \<lparr>commitId_cr = cid, type_cr = ty, startIdx = lineIdx,
                                  lines_cr = [slice1 line],
                                  startOriginalLineNum_cr =
                                    (if ty = Minus then originalLineNum st else - 1),
                                  startNewLineNum_cr =
                                    (if ty = Plus then newLineNum st else - 1)\<rparr>,
                          commitFileRanges := m\<rparr>))))
      else
        (case flushRange path hid (currentRange st) (commitFileRanges st) of
           Inl e \<Rightarrow> Inl e
         | Inr m \<Rightarrow>
             Inr (st\<lparr>currentRange := None, commitFileRanges := m,
                     originalLineNum := originalLineNum st + 1,
                     newLineNum := newLineNum st + 1\<rparr>)))"

function scanLoop ::
  "string \<Rightarrow> int \<Rightarrow> CommitPlan list \<Rightarrow> (int \<times> int \<rightharpoonup> string) \<Rightarrow> string list \<Rightarrow> nat
     \<Rightarrow> ScanState \<Rightarrow> error + ScanState" where
  "scanLoop path hid commits classMap hunkLines lineIdx st =
     (if lineIdx < length hunkLines then
        (if hunkLines ! lineIdx = [] \<and> lineIdx = length hunkLines - 1
         then scanLoop path hid commits classMap hunkLines (Suc lineIdx) st
         else (case scanLine path hid commits classMap lineIdx (hunkLines ! lineIdx) st of
                 Inl e \<Rightarrow> Inl e
               | Inr st' \<Rightarrow> scanLoop path hid commits classMap hunkLines (Suc lineIdx) st'))
      else Inr st)"
  by pat_completeness auto
termination
  by (relation "measure (\<lambda>(p, h, cs, cm, hl, i, st). length hl - i)") auto

declare scanLoop.simps [simp del]

text \<open>The line numbers a hunk starts with: from its header, or else its \<^verbatim>\<open>startLine\<close>.\<close>

definition headerLineNums :: "ParsedHunk \<Rightarrow> int \<times> int" where
  "headerLineNums hunk =
     (case matchHeader (header hunk) of
        Some (d1, d2) \<Rightarrow> (int (parseInt d1), int (parseInt d2))
      | None \<Rightarrow> (startLine hunk, startLine hunk))"

definition extractHunk ::
  "CommitPlan list \<Rightarrow> (int \<times> int \<rightharpoonup> string) \<Rightarrow> string \<Rightarrow> ParsedHunk \<Rightarrow> RangesMap
     \<Rightarrow> error + RangesMap" where
  "extractHunk commits classMap path hunk m =
     (case scanLoop path (id_h hunk) commits classMap (split_nl (content hunk)) 0
             \<lparr>currentRange = None,
              originalLineNum = fst (headerLineNums hunk),
              newLineNum = snd (headerLineNums hunk),
              commitFileRanges = m\<rparr> of
        Inl e \<Rightarrow> Inl e
      | Inr st \<Rightarrow> flushRange path (id_h hunk) (currentRange st) (commitFileRanges st))"

text \<open>A \<^verbatim>\<open>for ... of\<close> loop whose body may throw.\<close>

primrec foldE :: "('a \<Rightarrow> 's \<Rightarrow> error + 's) \<Rightarrow> 'a list \<Rightarrow> 's \<Rightarrow> error + 's" where
  "foldE f [] s = Inr s"
| "foldE f (x # xs) s = (case f x s of Inl e \<Rightarrow> Inl e | Inr s' \<Rightarrow> foldE f xs s')"

definition extractFile ::
  "CommitPlan list \<Rightarrow> (int \<times> int \<rightharpoonup> string) \<Rightarrow> ParsedFileDiff \<Rightarrow> RangesMap \<Rightarrow> error + RangesMap" where
  "extractFile commits classMap file m =
     foldE (extractHunk commits classMap (filePath file)) (hunks file) m"

definition initialRanges :: "CommitPlan list \<Rightarrow> RangesMap" where
  "initialRanges commits = fold (\<lambda>commit m. AList.update (id_p commit) [] m) commits []"

text \<open>The final \<^verbatim>\<open>commits.map\<close>: one entry per plan entry, files with no range left out.\<close>

definition toCommitChanges :: "RangesMap \<Rightarrow> CommitPlan \<Rightarrow> error + CommitChanges" where
  "toCommitChanges m commit =
     (case map_of m (id_p commit) of
        None \<Rightarrow> Inl TypeError
      | Some fileRangesMap \<Rightarrow>
          Inr \<lparr>commitId = id_p commit,
               message = message_p commit,
               description = description_p commit,
               fileChanges =
                 map (\<lambda>(p, rs). \<lparr>filePath_f = p, ranges = rs\<rparr>)
                     (filter (\<lambda>(p, rs). rs \<noteq> []) fileRangesMap)\<rparr>)"

primrec mapE :: "('a \<Rightarrow> error + 'b) \<Rightarrow> 'a list \<Rightarrow> error + 'b list" where
  "mapE f [] = Inr []"
| "mapE f (x # xs) =
     (case f x of
        Inl e \<Rightarrow> Inl e
      | Inr y \<Rightarrow> (case mapE f xs of Inl e \<Rightarrow> Inl e | Inr ys \<Rightarrow> Inr (y # ys)))"

definition extractChanges ::
  "ParsedFileDiff list \<Rightarrow> CommitPlan list \<Rightarrow> HunkClassificationResult list
     \<Rightarrow> error + CommitChanges list" where
  "extractChanges files commits classifications =
     (case foldE (extractFile commits (buildClassificationMap classifications)) files
             (initialRanges commits) of
        Inl e \<Rightarrow> Inl e
      | Inr m \<Rightarrow> mapE (toCommitChanges m) commits)"


section \<open>Validation: \<^verbatim>\<open>validateExtraction\<close>\<close>

text \<open>The decimal text of a number, as a template literal renders an integer.\<close>

definition digitChar :: "nat \<Rightarrow> char" where
  "digitChar d = ''0123456789'' ! d"

fun showNat :: "nat \<Rightarrow> string" where
  "showNat n = (if n < 10 then [digitChar n] else showNat (n div 10) @ [digitChar (n mod 10)])"

declare showNat.simps [simp del]

definition showInt :: "int \<Rightarrow> string" where
  "showInt i = (if i < 0 then CHR ''-'' # showNat (nat (- i)) else showNat (nat i))"

text \<open>The key \<^verbatim>\<open>`${range.hunkId}:${range.startLineIdx}-${range.endLineIdx}`\<close>.\<close>

definition rangeKey :: "LineRange \<Rightarrow> string" where
  "rangeKey rng =
     showInt (hunkId rng) @ '':'' @ showInt (startLineIdx rng) @ ''-''
       @ showInt (endLineIdx rng)"

definition totalChangedLines :: "ParsedFileDiff list \<Rightarrow> nat" where
  "totalChangedLines files =
     fold (\<lambda>file n.
        fold (\<lambda>hunk n.
           fold (\<lambda>line n.
                   if startsWith line CHR ''+'' \<or> startsWith line CHR ''-'' then Suc n else n)
                (split_nl (content hunk)) n)
           (hunks file) n)
        files 0"

record ValidationState =
  errors_v :: "string list"
  seenRanges :: "string set"
  extractedChanges :: nat

definition duplicateError :: "string \<Rightarrow> string \<Rightarrow> string" where
  "duplicateError key cid = ''Duplicate range: '' @ key @ '' in commit '' @ cid"

definition checkRange :: "string \<Rightarrow> LineRange \<Rightarrow> ValidationState \<Rightarrow> ValidationState" where
  "checkRange cid rng st =
     \<lparr>errors_v =
        (if rangeKey rng \<in> seenRanges st
         then errors_v st @ [duplicateError (rangeKey rng) cid]
         else errors_v st),
      seenRanges = insert (rangeKey rng) (seenRanges st),
      extractedChanges = extractedChanges st + length (lines_r rng)\<rparr>"

definition checkRanges :: "CommitChanges list \<Rightarrow> ValidationState" where
  "checkRanges commitChanges =
     fold (\<lambda>commit st.
        fold (\<lambda>fileChange st. fold (checkRange (commitId commit)) (ranges fileChange) st)
             (fileChanges commit) st)
        commitChanges
        \<lparr>errors_v = [], seenRanges = {}, extractedChanges = 0\<rparr>"

record ValidationResult =
  valid :: bool
  errors :: "string list"

definition mismatchError :: "nat \<Rightarrow> nat \<Rightarrow> string" where
  "mismatchError extracted expected =
     ''Line count mismatch: extracted '' @ showNat extracted @ '', expected '' @ showNat expected"

definition validateExtraction :: "ParsedFileDiff list \<Rightarrow> CommitChanges list \<Rightarrow> ValidationResult" where
  "validateExtraction files commitChanges =
     (let st = checkRanges commitChanges;
          errs = (if extractedChanges st \<noteq> totalChangedLines files
                  then errors_v st @ [mismatchError (extractedChanges st) (totalChangedLines files)]
                  else errors_v st)
      in \<lparr>valid = (errs = []), errors = errs\<rparr>)"


section \<open>Reconstruction: \<^verbatim>\<open>buildPatches\<close>\<close>

text \<open>
  \<^verbatim>\<open>getFileAtRef\<close> and \<^verbatim>\<open>generateUnifiedDiff\<close> live in \<^verbatim>\<open>git.ts\<close> and talk to git; they
  are parameters of the model: \<open>getFile ref path\<close> gives the content or nothing, and
  \<open>genDiff path before after isNewFile\<close> gives the text of a patch fragment.
\<close>

type_synonym ContentProvider = "string \<Rightarrow> string \<Rightarrow> string option"
type_synonym DiffGenerator = "string \<Rightarrow> string \<Rightarrow> string \<Rightarrow> bool \<Rightarrow> string"

record PatchBuildContext =
  fileStates :: "string \<rightharpoonup> string"
  newFiles :: "string set"
  createdInPatch :: "string set"

definition isNewFileHeader :: "string \<Rightarrow> bool" where
  "isNewFileHeader h = (includes_str h ''new file mode'' \<or> includes_str h ''--- /dev/null'')"

definition initializeContext ::
  "ContentProvider \<Rightarrow> ParsedFileDiff list \<Rightarrow> string \<Rightarrow> PatchBuildContext" where
  "initializeContext getFile files commitHash =
     fold (\<lambda>file c.
        if isNewFileHeader (fileHeader file)
        then c\<lparr>newFiles := insert (filePath file) (newFiles c),
               fileStates := (fileStates c)(filePath file \<mapsto> [])\<rparr>
        else c\<lparr>fileStates := (fileStates c)(filePath file \<mapsto>
                 (case getFile (commitHash @ ''~1'') (filePath file) of
                    Some text \<Rightarrow> text
                  | None \<Rightarrow> []))\<rparr>)
        files
        \<lparr>fileStates = Map.empty, newFiles = {}, createdInPatch = {}\<rparr>"

text \<open>
  Every call of the diff generator is an effect of \<^verbatim>\<open>buildPatches\<close>; the state of the
  loop keeps the calls made so far, with their answers, next to what the source keeps.
\<close>

record DiffCall =
  path_d :: string
  before_d :: string
  after_d :: string
  isNewFile_d :: bool
  diff_d :: string

record BuildState =
  ctx :: PatchBuildContext
  cumulativeRangesByFile :: "string \<rightharpoonup> LineRange list"
  diffCalls :: "DiffCall list"

definition originalOf :: "PatchBuildContext \<Rightarrow> string \<Rightarrow> string" where
  "originalOf c path = (case fileStates c path of Some text \<Rightarrow> text | None \<Rightarrow> [])"

definition prevRangesOf :: "BuildState \<Rightarrow> string \<Rightarrow> LineRange list" where
  "prevRangesOf st path = (case cumulativeRangesByFile st path of Some rs \<Rightarrow> rs | None \<Rightarrow> [])"

definition currentContent :: "string \<Rightarrow> ParsedHunk list \<Rightarrow> LineRange list \<Rightarrow> string" where
  "currentContent originalContent hunkList prevRanges =
     (if prevRanges \<noteq> [] then buildFileContent originalContent hunkList prevRanges
      else originalContent)"

text \<open>The body of the loop over the file changes of one commit.\<close>

definition fileChangeStep ::
  "DiffGenerator \<Rightarrow> ParsedFileDiff list \<Rightarrow> FileChanges \<Rightarrow> BuildState \<times> string list
     \<Rightarrow> BuildState \<times> string list" where
  "fileChangeStep genDiff files fileChange sp =
     (case sp of (st, patchParts) \<Rightarrow>
        (case find (\<lambda>f. filePath f = filePath_f fileChange) files of
           None \<Rightarrow> (st, patchParts)
         | Some file \<Rightarrow>
             (let path = filePath_f fileChange;
                  originalContent = originalOf (ctx st) path;
                  isNewFile = (path \<in> newFiles (ctx st) \<and> path \<notin> createdInPatch (ctx st));
                  prevRanges = prevRangesOf st path;
                  cur = currentContent originalContent (hunks file) prevRanges;
                  newCumulativeRanges = prevRanges @ ranges fileChange;
                  targetContent = buildFileContent originalContent (hunks file) newCumulativeRanges;
                  diff = genDiff path cur targetContent isNewFile
              in (st\<lparr>ctx :=
                       (if diff \<noteq> [] \<and> isNewFile
                        then (ctx st)\<lparr>createdInPatch := insert path (createdInPatch (ctx st))\<rparr>
                        else ctx st),
                     cumulativeRangesByFile :=
                       (cumulativeRangesByFile st)(path \<mapsto> newCumulativeRanges),
                     diffCalls :=
                       diffCalls st @ [\<lparr>path_d = path, before_d = cur, after_d = targetContent,
                                        isNewFile_d = isNewFile, diff_d = diff\<rparr>]\<rparr>,
                  if diff \<noteq> [] then patchParts @ [diff] else patchParts))))"

text \<open>The body of the loop over the commits; \<^verbatim>\<open>patchParts.join('')\<close> is \<^const>\<open>concat\<close>.\<close>

definition commitStep ::
  "DiffGenerator \<Rightarrow> ParsedFileDiff list \<Rightarrow> CommitChanges \<Rightarrow> BuildState \<times> AssembledPatch list
     \<Rightarrow> BuildState \<times> AssembledPatch list" where
  "commitStep genDiff files commit sr =
     (case sr of (st, results) \<Rightarrow>
        (case fold (fileChangeStep genDiff files) (fileChanges commit) (st, []) of
           (st', patchParts) \<Rightarrow>
             (st', results @ [\<lparr>commitId_a = commitId commit,
                                message_a = message commit,
                                description_a = description commit,
                                patch = concat patchParts\<rparr>])))"

definition buildPatchesRun ::
  "ContentProvider \<Rightarrow> DiffGenerator \<Rightarrow> ParsedFileDiff list \<Rightarrow> CommitChanges list \<Rightarrow> string
     \<Rightarrow> BuildState \<times> AssembledPatch list" where
  "buildPatchesRun getFile genDiff files commitChanges commitHash =
     fold (commitStep genDiff files) commitChanges
       (\<lparr>ctx = initializeContext getFile files commitHash,
         cumulativeRangesByFile = Map.empty,
         diffCalls = []\<rparr>, [])"

definition buildPatches ::
  "ContentProvider \<Rightarrow> DiffGenerator \<Rightarrow> ParsedFileDiff list \<Rightarrow> CommitChanges list \<Rightarrow> string
     \<Rightarrow> AssembledPatch list" where
  "buildPatches getFile genDiff files commitChanges commitHash =
     snd (buildPatchesRun getFile genDiff files commitChanges commitHash)"


section \<open>The loops of \<^verbatim>\<open>buildFileContent\<close> on lists\<close>

text \<open>
  An index is selected for a hunk when it lies in one of the selected ranges that carry
  the id of the hunk. This is the wording of the specification; the code keeps a map from
  hunk ids to sets of indices, \<^verbatim>\<open>selectedByHunk\<close>.
\<close>

definition isSelected :: "LineRange list \<Rightarrow> int \<Rightarrow> nat \<Rightarrow> bool" where
  "isSelected selectedRanges hid i =
     (\<exists>r \<in> set selectedRanges. hunkId r = hid \<and> startLineIdx r \<le> int i \<and> int i \<le> endLineIdx r)"

text \<open>
  For the proofs the loops of \<^const>\<open>buildFileContent\<close> are restated on lists: the
  state is the result so far and the original lines from \<^verbatim>\<open>originalIdx\<close> on. The
  functions \<open>absLine\<close>, \<open>absLines\<close>, \<open>absHunk\<close> and \<open>absReplay\<close> are taken from the
  code, like the loops themselves: the tests on a line and the start of a hunk are the
  ones of the code, and a copy from no original line copies nothing.
\<close>

definition absLine :: "bool \<Rightarrow> string \<Rightarrow> string list \<times> string list \<Rightarrow> string list \<times> string list" where
  "absLine selected l s =
     (case s of (out, rest) \<Rightarrow>
        if startsWith l CHR ''+'' then ((if selected then out @ [slice1 l] else out), rest)
        else if startsWith l CHR ''-'' then ((if selected then out else out @ take 1 rest), drop 1 rest)
        else if startsWith l CHR '' '' then (out @ take 1 rest, drop 1 rest)
        else (out, rest))"

fun absLines ::
  "(nat \<Rightarrow> bool) \<Rightarrow> nat \<Rightarrow> string list \<Rightarrow> string list \<times> string list \<Rightarrow> string list \<times> string list" where
  "absLines sel i [] s = s"
| "absLines sel i (l # ls) s = absLines sel (Suc i) ls (absLine (sel i) l s)"

text \<open>
  One hunk: the original lines up to the declared start are copied first; what has been
  consumed so far is what is missing from the rest.
\<close>

definition absHunk ::
  "string list \<Rightarrow> LineRange list \<Rightarrow> ParsedHunk \<Rightarrow> string list \<times> string list \<Rightarrow> string list \<times> string list" where
  "absHunk orig selectedRanges hunk s =
     (case s of (out, rest) \<Rightarrow>
        (let k = nat (hunkStartLine hunk - (int (length orig) - int (length rest)))
         in absLines (isSelected selectedRanges (id_h hunk)) 0 (split_nl (content hunk))
              (out @ take k rest, drop k rest)))"

text \<open>After the last hunk the remaining original lines are copied.\<close>

definition absReplay :: "string \<Rightarrow> ParsedHunk list \<Rightarrow> LineRange list \<Rightarrow> string" where
  "absReplay originalContent hunkList selectedRanges =
     (case fold (absHunk (contentLines originalContent) selectedRanges) hunkList
             ([], contentLines originalContent) of
        (out, rest) \<Rightarrow> join_nl (out @ rest))"


section \<open>Auxiliary notions for the proofs\<close>

text \<open>
  The number of lines of a hunk that the loops look at: a last empty line is skipped.
\<close>

definition effLen :: "string list \<Rightarrow> nat" where
  "effLen ls = (if ls \<noteq> [] \<and> last ls = [] then length ls - 1 else length ls)"

text \<open>The state of \<^const>\<open>buildFileContent\<close>, seen as result and remaining original lines.\<close>

definition absState :: "string list \<Rightarrow> string list \<times> nat \<Rightarrow> string list \<times> string list" where
  "absState ol st = (fst st, drop (snd st) ol)"


definition allRanges :: "CommitChanges list \<Rightarrow> LineRange list" where
  "allRanges commitChanges = concat (map (\<lambda>c. concat (map ranges (fileChanges c))) commitChanges)"

definition spanOf :: "LineRange \<Rightarrow> int \<times> int \<times> int" where
  "spanOf r = (hunkId r, startLineIdx r, endLineIdx r)"

definition carriedLines :: "CommitChanges list \<Rightarrow> nat" where
  "carriedLines commitChanges = sum_list (map (\<lambda>r. length (lines_r r)) (allRanges commitChanges))"

definition taggedRanges :: "CommitChanges list \<Rightarrow> (string \<times> LineRange) list" where
  "taggedRanges commitChanges =
     concat (map (\<lambda>c. map (Pair (commitId c)) (concat (map ranges (fileChanges c)))) commitChanges)"

definition isChange :: "string \<Rightarrow> bool" where
  "isChange l = (startsWith l CHR ''+'' \<or> startsWith l CHR ''-'')"

definition lineType :: "string \<Rightarrow> LineType" where
  "lineType l = (if startsWith l CHR ''+'' then Plus else Minus)"

definition cidOf :: "CommitPlan list \<Rightarrow> (int \<times> int \<rightharpoonup> string) \<Rightarrow> int \<Rightarrow> nat \<Rightarrow> string" where
  "cidOf commits classMap hid i =
     (case commitFor commits classMap (hid, int i) of Inr c \<Rightarrow> c | Inl e \<Rightarrow> [])"

type_synonym Item = "int \<times> int \<times> LineType \<times> string"

definition itemAt :: "int \<Rightarrow> string list \<Rightarrow> nat \<Rightarrow> Item" where
  "itemAt hid ls i = (hid, int i, lineType (ls ! i), slice1 (ls ! i))"

definition lineItems :: "(nat \<Rightarrow> bool) \<Rightarrow> int \<Rightarrow> string list \<Rightarrow> nat \<Rightarrow> Item list" where
  "lineItems sel hid ls n =
     map (itemAt hid ls) (filter (\<lambda>i. isChange (ls ! i) \<and> sel i) [0..<n])"

definition expand :: "LineRange \<Rightarrow> Item list" where
  "expand r =
     map (\<lambda>k. (hunkId r, startLineIdx r + int k, type_r r, lines_r r ! k))
         [0..<length (lines_r r)]"

definition rangesAt :: "RangesMap \<Rightarrow> string \<Rightarrow> string \<Rightarrow> LineRange list" where
  "rangesAt m c p =
     (case map_of m c of
        None \<Rightarrow> []
      | Some fr \<Rightarrow> (case map_of fr p of None \<Rightarrow> [] | Some rs \<Rightarrow> rs))"

definition curAt :: "string \<Rightarrow> int \<Rightarrow> CurrentRange option \<Rightarrow> string \<Rightarrow> string \<Rightarrow> LineRange list" where
  "curAt path hid cur c p =
     (case cur of
        None \<Rightarrow> []
      | Some cr \<Rightarrow> if commitId_cr cr = c \<and> p = path then [rangeOf hid cr] else [])"

definition sameRun :: "(nat \<Rightarrow> string) \<Rightarrow> string list \<Rightarrow> string \<Rightarrow> LineType \<Rightarrow> nat \<Rightarrow> bool" where
  "sameRun g ls c ty i = (isChange (ls ! i) \<and> lineType (ls ! i) = ty \<and> g i = c)"

definition partialRun :: "(nat \<Rightarrow> string) \<Rightarrow> string list \<Rightarrow> CurrentRange \<Rightarrow> nat \<Rightarrow> bool" where
  "partialRun g ls cr i =
     (lines_cr cr \<noteq> [] \<and> startIdx cr + length (lines_cr cr) = i
      \<and> (\<forall>k < length (lines_cr cr).
            sameRun g ls (commitId_cr cr) (type_cr cr) (startIdx cr + k)
            \<and> slice1 (ls ! (startIdx cr + k)) = lines_cr cr ! k)
      \<and> (startIdx cr = 0 \<or> \<not> sameRun g ls (commitId_cr cr) (type_cr cr) (startIdx cr - 1)))"

definition runIn :: "(nat \<Rightarrow> string) \<Rightarrow> int \<Rightarrow> string list \<Rightarrow> string \<Rightarrow> LineRange \<Rightarrow> bool" where
  "runIn g hid ls c r =
     (hunkId r = hid \<and> 0 \<le> startLineIdx r \<and> lines_r r \<noteq> []
      \<and> endLineIdx r = startLineIdx r + int (length (lines_r r)) - 1
      \<and> nat (startLineIdx r) + length (lines_r r) \<le> length ls
      \<and> (\<forall>k < length (lines_r r).
            sameRun g ls c (type_r r) (nat (startLineIdx r) + k)
            \<and> slice1 (ls ! (nat (startLineIdx r) + k)) = lines_r r ! k)
      \<and> (startLineIdx r = 0 \<or> \<not> sameRun g ls c (type_r r) (nat (startLineIdx r) - 1)))"

definition curOK :: "(nat \<Rightarrow> string) \<Rightarrow> string list \<Rightarrow> CurrentRange option \<Rightarrow> nat \<Rightarrow> bool" where
  "curOK g ls cur i =
     (case cur of
        None \<Rightarrow> i = 0 \<or> \<not> isChange (ls ! (i - 1))
      | Some cr \<Rightarrow> partialRun g ls cr i)"

definition newRange :: "string \<Rightarrow> LineType \<Rightarrow> nat \<Rightarrow> string \<Rightarrow> ScanState \<Rightarrow> CurrentRange" where
  "newRange cid ty i l st =
     \<lparr>commitId_cr = cid, type_cr = ty, startIdx = i, lines_cr = [slice1 l],
      startOriginalLineNum_cr = (if ty = Minus then originalLineNum st else - 1),
      startNewLineNum_cr = (if ty = Plus then newLineNum st else - 1)\<rparr>"

definition curM :: "(string \<Rightarrow> string \<Rightarrow> bool) \<Rightarrow> string \<Rightarrow> int \<Rightarrow> CurrentRange option \<Rightarrow> LineRange multiset" where
  "curM hit path hid cur =
     (case cur of
        None \<Rightarrow> {#}
      | Some cr \<Rightarrow> if hit path (commitId_cr cr) then {#rangeOf hid cr#} else {#})"

definition itemsOf :: "LineRange multiset \<Rightarrow> Item multiset" where
  "itemsOf X = (\<Sum>r\<in>#X. mset (expand r))"

definition flushLaw :: "(RangesMap \<Rightarrow> LineRange multiset) \<Rightarrow> (string \<Rightarrow> string \<Rightarrow> bool) \<Rightarrow> bool" where
  "flushLaw R hit =
     (\<forall>path hid cur m m'. flushRange path hid cur m = Inr m'
        \<longrightarrow> R m' = R m + curM hit path hid cur)"

definition initState :: "ParsedHunk \<Rightarrow> RangesMap \<Rightarrow> ScanState" where
  "initState hunk m =
     \<lparr>currentRange = None, originalLineNum = fst (headerLineNums hunk),
      newLineNum = snd (headerLineNums hunk), commitFileRanges = m\<rparr>"

definition allAt :: "RangesMap \<Rightarrow> string \<Rightarrow> LineRange list" where
  "allAt m c = (case map_of m c of None \<Rightarrow> [] | Some fr \<Rightarrow> concat (map snd fr))"

definition hitPath :: "string \<Rightarrow> string \<Rightarrow> string \<Rightarrow> string \<Rightarrow> bool" where
  "hitPath c p path c' = (c' = c \<and> path = p)"

definition hitGroup :: "string \<Rightarrow> string \<Rightarrow> string \<Rightarrow> bool" where
  "hitGroup c path c' = (c' = c)"

definition hunkItems ::
  "CommitPlan list \<Rightarrow> (int \<times> int \<rightharpoonup> string) \<Rightarrow> (string \<Rightarrow> bool) \<Rightarrow> ParsedHunk \<Rightarrow> Item list" where
  "hunkItems commits classMap sel hunk =
     lineItems (\<lambda>i. sel (cidOf commits classMap (id_h hunk) i)) (id_h hunk)
       (split_nl (content hunk)) (length (split_nl (content hunk)))"

definition fileItems ::
  "CommitPlan list \<Rightarrow> (int \<times> int \<rightharpoonup> string) \<Rightarrow> (string \<Rightarrow> string \<Rightarrow> bool) \<Rightarrow> ParsedFileDiff \<Rightarrow> Item list" where
  "fileItems commits classMap hit file =
     concat (map (hunkItems commits classMap (hit (filePath file))) (hunks file))"

definition diffItems ::
  "CommitPlan list \<Rightarrow> (int \<times> int \<rightharpoonup> string) \<Rightarrow> (string \<Rightarrow> string \<Rightarrow> bool) \<Rightarrow> ParsedFileDiff list \<Rightarrow> Item list" where
  "diffItems commits classMap hit files = concat (map (fileItems commits classMap hit) files)"

definition isRunOf ::
  "CommitPlan list \<Rightarrow> (int \<times> int \<rightharpoonup> string) \<Rightarrow> ParsedFileDiff list \<Rightarrow> string \<Rightarrow> LineRange \<Rightarrow> bool" where
  "isRunOf commits classMap files c r =
     (\<exists>f \<in> set files. \<exists>h \<in> set (hunks f).
        runIn (cidOf commits classMap (id_h h)) (id_h h) (split_nl (content h)) c r)"

definition named :: "CommitPlan list \<Rightarrow> HunkClassificationResult list \<Rightarrow> bool" where
  "named commits classifications =
     (\<forall>hr \<in> set classifications. \<forall>l \<in> set (lines_c hr). commitId_l l \<in> id_p ` set commits)"

definition rangesFor :: "CommitChanges \<Rightarrow> string \<Rightarrow> LineRange list" where
  "rangesFor cc p = concat (map ranges (filter (\<lambda>fc. filePath_f fc = p) (fileChanges cc)))"


section \<open>Example inputs\<close>

text \<open>
  A diff of one file with one hunk: a context line, a removal, two additions, a context
  line; a plan of two groups; a classification that leaves the first addition without
  an entry; and a classification that names a group the plan does not have.
\<close>

definition exHunk :: ParsedHunk where
  "exHunk = \<lparr>id_h = 0, header = ''@@ -1,3 +1,4 @@'',
             content = '' a\<newline>-b\<newline>+c\<newline>+d\<newline> e'', startLine = 1\<rparr>"

definition exFile :: ParsedFileDiff where
  "exFile = \<lparr>filePath = ''F'', fileHeader = ''diff --git a/F b/F'', hunks = [exHunk]\<rparr>"

definition exPlan :: "CommitPlan list" where
  "exPlan = [\<lparr>id_p = ''c1'', message_p = ''first'', description_p = ''''\<rparr>,
             \<lparr>id_p = ''c2'', message_p = ''second'', description_p = ''''\<rparr>]"

definition exClass :: "HunkClassificationResult list" where
  "exClass = [\<lparr>hunkId_c = 0, lines_c = [\<lparr>lineIndex = 1, commitId_l = ''c1''\<rparr>,
                                         \<lparr>lineIndex = 3, commitId_l = ''c2''\<rparr>]\<rparr>]"

definition exClassAbsent :: "HunkClassificationResult list" where
  "exClassAbsent = [\<lparr>hunkId_c = 0, lines_c = [\<lparr>lineIndex = 1, commitId_l = ''zz''\<rparr>]\<rparr>]"


definition covers :: "LineRange \<Rightarrow> int \<Rightarrow> nat \<Rightarrow> bool" where
  "covers r hid i = (hunkId r = hid \<and> startLineIdx r \<le> int i \<and> int i \<le> endLineIdx r)"

text \<open>
  A newly created file whose first added line is empty and whose second added line is
  \<open>a\<close>.
\<close>

definition exNewHunk :: ParsedHunk where
  "exNewHunk = \<lparr>id_h = 1, header = ''@@ -0,0 +1,2 @@'', content = ''+\<newline>+a'', startLine = 1\<rparr>"

definition exNewFile :: ParsedFileDiff where
  "exNewFile = \<lparr>filePath = ''N'',
                 fileHeader = ''diff --git a/N b/N\<newline>new file mode 100644\<newline>--- /dev/null\<newline>+++ b/N'',
                 hunks = [exNewHunk]\<rparr>"


definition groupRanges :: "CommitChanges \<Rightarrow> LineRange list" where
  "groupRanges cc = concat (map ranges (fileChanges cc))"


definition distinctHunkIds :: "ParsedFileDiff list \<Rightarrow> bool" where
  "distinctHunkIds files = distinct (map id_h (concat (map hunks files)))"

definition inOneHunk :: "ParsedFileDiff list \<Rightarrow> LineRange \<Rightarrow> bool" where
  "inOneHunk files r =
     (\<exists>f \<in> set files. \<exists>h \<in> set (hunks f).
        hunkId r = id_h h \<and> 0 \<le> startLineIdx r \<and> startLineIdx r \<le> endLineIdx r
        \<and> endLineIdx r < int (length (split_nl (content h)))
        \<and> (\<forall>i. startLineIdx r \<le> int i \<and> int i \<le> endLineIdx r
               \<longrightarrow> isChange (split_nl (content h) ! i)
                   \<and> lineType (split_nl (content h) ! i) = type_r r))"

definition allHit :: "string \<Rightarrow> string \<Rightarrow> bool" where
  "allHit path c = True"

text \<open>What the partitioning returns on the example diff.\<close>

definition exChanges :: "CommitChanges list" where
  "exChanges = projr (extractChanges [exFile] exPlan exClass)"

text \<open>A plan whose first and last entries carry the same id.\<close>

definition exDupPlan :: "CommitPlan list" where
  "exDupPlan = [\<lparr>id_p = ''c1'', message_p = ''first'', description_p = ''''\<rparr>,
                \<lparr>id_p = ''c2'', message_p = ''second'', description_p = ''''\<rparr>,
                \<lparr>id_p = ''c1'', message_p = ''again'', description_p = ''''\<rparr>]"

definition coverCount :: "CommitChanges list \<Rightarrow> int \<Rightarrow> nat \<Rightarrow> nat" where
  "coverCount changes hid i = length (filter (\<lambda>r. covers r hid i) (allRanges changes))"


text \<open>The number of addition and removal lines of a diff.\<close>

definition changedLines :: "ParsedFileDiff list \<Rightarrow> nat" where
  "changedLines files =
     length (filter isChange (concat (map (\<lambda>h. split_nl (content h)) (concat (map hunks files)))))"

text \<open>
  The duplicate errors of a sequence of ranges tagged with their group id, given the
  ranges seen before: one error at every range whose span was seen.
\<close>

fun dupErrors :: "LineRange list \<Rightarrow> (string \<times> LineRange) list \<Rightarrow> string list" where
  "dupErrors seen [] = []"
| "dupErrors seen ((c, r) # xs) =
     (if spanOf r \<in> spanOf ` set seen then [duplicateError (rangeKey r) c] else [])
       @ dupErrors (r # seen) xs"

definition checkTagged :: "string \<times> LineRange \<Rightarrow> ValidationState \<Rightarrow> ValidationState" where
  "checkTagged = (\<lambda>(c, r). checkRange c r)"

text \<open>A classification of the example diff with an entry for each of its changed lines.\<close>

definition exClassAll :: "HunkClassificationResult list" where
  "exClassAll = [\<lparr>hunkId_c = 0, lines_c = [\<lparr>lineIndex = 1, commitId_l = ''c1''\<rparr>,
                                            \<lparr>lineIndex = 2, commitId_l = ''c1''\<rparr>,
                                            \<lparr>lineIndex = 3, commitId_l = ''c2''\<rparr>]\<rparr>]"


text \<open>The calls of the diff generator that a run of \<^const>\<open>buildPatches\<close> makes, in order.\<close>

definition callsOf ::
  "ContentProvider \<Rightarrow> DiffGenerator \<Rightarrow> ParsedFileDiff list \<Rightarrow> CommitChanges list \<Rightarrow> string
     \<Rightarrow> DiffCall list" where
  "callsOf getFile genDiff files commitChanges commitHash =
     diffCalls (fst (buildPatchesRun getFile genDiff files commitChanges commitHash))"

text \<open>
  The paths of the file changes of a group that belong to a file of the diff, in the
  order of the file changes: the others are passed over.
\<close>

definition touched :: "ParsedFileDiff list \<Rightarrow> FileChanges list \<Rightarrow> string list" where
  "touched files fcs =
     filter (\<lambda>p. find (\<lambda>f. filePath f = p) files \<noteq> None) (map filePath_f fcs)"

text \<open>A sequence of calls cut into one piece per group, as long as the group has touched paths.\<close>

primrec groupCalls :: "ParsedFileDiff list \<Rightarrow> CommitChanges list \<Rightarrow> DiffCall list \<Rightarrow> DiffCall list list" where
  "groupCalls files [] calls = []"
| "groupCalls files (cc # ccs) calls =
     take (length (touched files (fileChanges cc))) calls
       # groupCalls files ccs (drop (length (touched files (fileChanges cc))) calls)"

definition patchOf :: "CommitChanges \<Rightarrow> DiffCall list \<Rightarrow> AssembledPatch" where
  "patchOf cc calls =
     \<lparr>commitId_a = commitId cc, message_a = message cc, description_a = description cc,
      patch = concat (map diff_d calls)\<rparr>"

text \<open>A generator answers the calls of a list as another one does.\<close>

definition agreeOn :: "DiffGenerator \<Rightarrow> DiffGenerator \<Rightarrow> DiffCall list \<Rightarrow> bool" where
  "agreeOn genDiff' genDiff calls =
     list_all (\<lambda>c. genDiff' (path_d c) (before_d c) (after_d c) (isNewFile_d c)
                 = genDiff (path_d c) (before_d c) (after_d c) (isNewFile_d c)) calls"

text \<open>
  In every entry of \<^verbatim>\<open>commitFileRanges\<close> the paths come in the order of the given list.
\<close>

definition pathsFollow :: "string list \<Rightarrow> RangesMap \<Rightarrow> bool" where
  "pathsFollow ps m = (\<forall>c fr. map_of m c = Some fr \<longrightarrow> subseq (map fst fr) ps)"

text \<open>
  Modelled from the spec: \<^verbatim>\<open>generateUnifiedDiff\<close> of \<^verbatim>\<open>git.ts\<close> is not part of the sources;
  the specification asks of it a patch text, or the empty string if before and after are
  equal. This example generator answers the two contents, or the empty string.
\<close>

definition exGen :: DiffGenerator where
  "exGen path old new isNew = (if old = new then [] else ''<'' @ old @ ''>'' @ new @ ''.'')"

text \<open>A generator that answers as \<^const>\<open>exGen\<close> for the file \<open>F\<close> only.\<close>

definition exGenOther :: DiffGenerator where
  "exGenOther path old new isNew = (if path = ''F'' then exGen path old new isNew else ''other'')"

text \<open>Two content providers that give the same content for the file \<open>F\<close>.\<close>

definition exProvider :: ContentProvider where
  "exProvider ref path = (if path = ''F'' then Some ''a\<newline>b\<newline>e'' else None)"

definition exProviderOther :: ContentProvider where
  "exProviderOther ref path = Some ''a\<newline>b\<newline>e''"


text \<open>A file of the diff with this path is flagged as newly created.\<close>

definition flaggedNew :: "ParsedFileDiff list \<Rightarrow> string \<Rightarrow> bool" where
  "flaggedNew files p = list_ex (\<lambda>f. filePath f = p \<and> isNewFileHeader (fileHeader f)) files"

text \<open>Among these calls, one for this path was answered with a nonempty fragment.\<close>

definition introducedIn :: "DiffCall list \<Rightarrow> string \<Rightarrow> bool" where
  "introducedIn calls p = list_ex (\<lambda>c. path_d c = p \<and> diff_d c \<noteq> []) calls"

text \<open>
  The flag of every call: the file is flagged as newly created and no earlier call for it
  was answered with a nonempty fragment.
\<close>

definition flagsRight :: "ParsedFileDiff list \<Rightarrow> DiffCall list \<Rightarrow> bool" where
  "flagsRight files calls =
     list_all (\<lambda>j. isNewFile_d (calls ! j)
                     = (flaggedNew files (path_d (calls ! j))
                        \<and> \<not> introducedIn (take j calls) (path_d (calls ! j))))
       [0..<length calls]"

definition flagInv :: "ParsedFileDiff list \<Rightarrow> BuildState \<Rightarrow> bool" where
  "flagInv files st =
     (newFiles (ctx st) = {p. flaggedNew files p}
      \<and> createdInPatch (ctx st) = {p. flaggedNew files p \<and> introducedIn (diffCalls st) p}
      \<and> flagsRight files (diffCalls st))"

text \<open>
  A classification of the newly created file that gives its first line to the first
  group and its second line to the second one.
\<close>

definition exNewClass :: "HunkClassificationResult list" where
  "exNewClass = [\<lparr>hunkId_c = 1, lines_c = [\<lparr>lineIndex = 0, commitId_l = ''c1''\<rparr>,
                                            \<lparr>lineIndex = 1, commitId_l = ''c2''\<rparr>]\<rparr>]"

text \<open>
  The groups that the partitioning returns for the newly created file, and the calls of a
  run on these groups followed by the same groups once more.
\<close>

definition exNewChanges :: "CommitChanges list" where
  "exNewChanges = projr (extractChanges [exNewFile] exPlan exNewClass)"

definition exNewCalls :: "DiffCall list" where
  "exNewCalls = callsOf exProvider exGen [exNewFile] (exNewChanges @ exNewChanges) ''abc''"


text \<open>
  A classification whose only entry is stale: it gives a context line of the example diff
  to a group that the plan does not have. And what the partitioning returns on it.
\<close>

definition exClassStale :: "HunkClassificationResult list" where
  "exClassStale = [\<lparr>hunkId_c = 0, lines_c = [\<lparr>lineIndex = 0, commitId_l = ''zz''\<rparr>]\<rparr>]"

definition exStaleChanges :: "CommitChanges list" where
  "exStaleChanges = projr (extractChanges [exFile] exPlan exClassStale)"







text \<open>
  As long as no call for a file flagged as newly created was answered with a nonempty
  fragment, its content so far is empty; and every call flagged as an introduction had an
  empty before-state, and a nonempty after-state if it was answered with a fragment.
\<close>

definition emptyInv :: "ParsedFileDiff list \<Rightarrow> BuildState \<Rightarrow> bool" where
  "emptyInv files st =
     ((\<forall>p. flaggedNew files p \<longrightarrow> originalOf (ctx st) p = [])
      \<and> (\<forall>p fl. flaggedNew files p \<and> \<not> introducedIn (diffCalls st) p
                  \<and> find (\<lambda>f. filePath f = p) files = Some fl
             \<longrightarrow> currentContent (originalOf (ctx st) p) (hunks fl) (prevRangesOf st p) = [])
      \<and> (\<forall>c \<in> set (diffCalls st).
            isNewFile_d c \<longrightarrow> before_d c = [] \<and> (diff_d c \<noteq> [] \<longrightarrow> after_d c \<noteq> [])))"

text \<open>The generator answers the empty string exactly when before and after are equal.\<close>

definition answersEmptyOnEqual :: "DiffGenerator \<Rightarrow> bool" where
  "answersEmptyOnEqual genDiff = (\<forall>p b a n. (genDiff p b a n = []) = (b = a))"


section \<open>The replay, as the specification words it\<close>

text \<open>
  The reference below is written from the words of the specification and shares neither
  the header parse nor the line tests of the code. The start that a header declares is
  the decimal number after the first \<^verbatim>\<open>@@ -\<close> that is followed by a digit; lines are
  counted from 1, and a header that declares nothing is read as line 1.
\<close>

definition digitOf :: "char \<Rightarrow> nat" where
  "digitOf c = length (takeWhile (\<lambda>d. d \<noteq> c) ''0123456789'')"

primrec decimalRev :: "string \<Rightarrow> nat" where
  "decimalRev [] = 0"
| "decimalRev (d # ds) = digitOf d + 10 * decimalRev ds"

definition decimal :: "string \<Rightarrow> nat" where
  "decimal ds = decimalRev (rev ds)"

fun declaredStart :: "string \<Rightarrow> nat" where
  "declaredStart [] = 1"
| "declaredStart (c # cs) =
     (if prefix ''@@ -'' (c # cs) \<and> takeWhile isDigit (drop 4 (c # cs)) \<noteq> []
      then decimal (takeWhile isDigit (drop 4 (c # cs)))
      else declaredStart cs)"

text \<open>
  One line of a hunk, read strictly: an addition is included in the result if and only
  if it is selected; a removal consumes one original line and copies it if and only if it
  is not selected; a context line copies and consumes one original line; any other line
  does nothing. There is no result when a removal or a context line finds no original
  line left.
\<close>

fun specLine ::
  "bool \<Rightarrow> string \<Rightarrow> string list \<times> string list \<Rightarrow> (string list \<times> string list) option" where
  "specLine selected [] s = Some s"
| "specLine selected (c # t) (out, rest) =
     (if c = CHR ''+'' then Some ((if selected then out @ [t] else out), rest)
      else if c = CHR ''-'' then
        (case rest of [] \<Rightarrow> None | x # xs \<Rightarrow> Some ((if selected then out else out @ [x]), xs))
      else if c = CHR '' '' then
        (case rest of [] \<Rightarrow> None | x # xs \<Rightarrow> Some (out @ [x], xs))
      else Some (out, rest))"

fun specLines ::
  "(nat \<Rightarrow> bool) \<Rightarrow> nat \<Rightarrow> string list \<Rightarrow> string list \<times> string list
     \<Rightarrow> (string list \<times> string list) option" where
  "specLines sel i [] s = Some s"
| "specLines sel i (l # ls) s =
     (case specLine (sel i) l s of None \<Rightarrow> None | Some s' \<Rightarrow> specLines sel (Suc i) ls s')"

text \<open>
  One hunk: the original lines before the declared start that are not yet consumed are
  copied first, then the lines of the hunk are gone through.
\<close>

definition specHunk ::
  "string list \<Rightarrow> LineRange list \<Rightarrow> ParsedHunk \<Rightarrow> string list \<times> string list
     \<Rightarrow> (string list \<times> string list) option" where
  "specHunk orig selectedRanges hunk s =
     (case s of (out, rest) \<Rightarrow>
        (let k = (declaredStart (header hunk) - 1) - (length orig - length rest)
         in specLines (isSelected selectedRanges (id_h hunk)) 0 (split_nl (content hunk))
              (out @ take k rest, drop k rest)))"

primrec specHunks ::
  "string list \<Rightarrow> LineRange list \<Rightarrow> ParsedHunk list \<Rightarrow> string list \<times> string list
     \<Rightarrow> (string list \<times> string list) option" where
  "specHunks orig selectedRanges [] s = Some s"
| "specHunks orig selectedRanges (h # hs) s =
     (case specHunk orig selectedRanges h s of
        None \<Rightarrow> None
      | Some s' \<Rightarrow> specHunks orig selectedRanges hs s')"

text \<open>The hunks in order; after the last one the remaining original lines are copied.\<close>

definition specReplay :: "string \<Rightarrow> ParsedHunk list \<Rightarrow> LineRange list \<Rightarrow> string option" where
  "specReplay originalContent hunkList selectedRanges =
     (case specHunks (contentLines originalContent) selectedRanges hunkList
             ([], contentLines originalContent) of
        None \<Rightarrow> None
      | Some (out, rest) \<Rightarrow> Some (join_nl (out @ rest)))"

text \<open>
  The same replay, amended: a removal or a context line that finds no original line left
  copies and consumes nothing.
\<close>

definition amendedLine ::
  "bool \<Rightarrow> string \<Rightarrow> string list \<times> string list \<Rightarrow> string list \<times> string list" where
  "amendedLine selected l s = (case specLine selected l s of Some s' \<Rightarrow> s' | None \<Rightarrow> s)"

fun amendedLines ::
  "(nat \<Rightarrow> bool) \<Rightarrow> nat \<Rightarrow> string list \<Rightarrow> string list \<times> string list \<Rightarrow> string list \<times> string list" where
  "amendedLines sel i [] s = s"
| "amendedLines sel i (l # ls) s = amendedLines sel (Suc i) ls (amendedLine (sel i) l s)"

definition amendedHunk ::
  "string list \<Rightarrow> LineRange list \<Rightarrow> ParsedHunk \<Rightarrow> string list \<times> string list
     \<Rightarrow> string list \<times> string list" where
  "amendedHunk orig selectedRanges hunk s =
     (case s of (out, rest) \<Rightarrow>
        (let k = (declaredStart (header hunk) - 1) - (length orig - length rest)
         in amendedLines (isSelected selectedRanges (id_h hunk)) 0 (split_nl (content hunk))
              (out @ take k rest, drop k rest)))"

definition amendedReplay :: "string \<Rightarrow> ParsedHunk list \<Rightarrow> LineRange list \<Rightarrow> string" where
  "amendedReplay originalContent hunkList selectedRanges =
     (case fold (amendedHunk (contentLines originalContent) selectedRanges) hunkList
             ([], contentLines originalContent) of
        (out, rest) \<Rightarrow> join_nl (out @ rest))"

text \<open>
  A hunk of two context lines on an original content of one line, and the selection of
  the whole example diff.
\<close>

definition exShortHunk :: ParsedHunk where
  "exShortHunk = \<lparr>id_h = 0, header = ''@@ -1,2 +1,2 @@'', content = '' a\<newline> b'', startLine = 1\<rparr>"

definition exSelection :: "LineRange list" where
  "exSelection = allRanges exChanges"


section \<open>The content after the whole diff\<close>


















section \<open>Replay with nothing selected\<close>

lemma split_nl_nonempty: "split_nl s \<noteq> []"
  by (induction s) auto

lemma join_nl_Cons: "ls \<noteq> [] \<Longrightarrow> join_nl (l # ls) = l @ nl # join_nl ls"
  by (cases ls) auto

lemma join_split_nl: "join_nl (split_nl s) = s"
proof (induction s)
  case Nil
  show ?case by simp
next
  case (Cons c cs)
  obtain l ls where sp: "split_nl cs = l # ls"
    using split_nl_nonempty [of cs] by (cases "split_nl cs") auto
  show ?case
  proof (cases "c = nl")
    case True
    then show ?thesis using Cons by (simp add: join_nl_Cons split_nl_nonempty)
  next
    case False
    from Cons sp have "join_nl (l # ls) = cs" by simp
    then have "join_nl ((c # l) # ls) = c # cs" by (cases ls) auto
    with False sp show ?thesis by simp
  qed
qed

lemma join_contentLines: "join_nl (contentLines s) = s"
  by (simp add: contentLines_def join_split_nl)

lemma copyBefore_step:
  "int i < h \<Longrightarrow> i < length ol \<Longrightarrow>
   copyBefore ol h (result, i) = copyBefore ol h (result @ [ol ! i], Suc i)"
  by (rule trans [OF copyBefore.simps]) auto

lemma copyBefore_stop:
  "\<not> (int i < h \<and> i < length ol) \<Longrightarrow> copyBefore ol h (result, i) = (result, i)"
  by (rule trans [OF copyBefore.simps]) auto

lemma copyRest_step:
  "i < length ol \<Longrightarrow> copyRest ol (result, i) = copyRest ol (result @ [ol ! i], Suc i)"
  by (rule trans [OF copyRest.simps]) auto

lemma copyRest_stop: "\<not> i < length ol \<Longrightarrow> copyRest ol (result, i) = (result, i)"
  by (rule trans [OF copyRest.simps]) auto

lemma hunkLoop_skip:
  "i < length hl \<Longrightarrow> hl ! i = [] \<and> i = length hl - 1 \<Longrightarrow>
   hunkLoop ol sel hl i st = hunkLoop ol sel hl (Suc i) st"
  by (rule trans [OF hunkLoop.simps]) auto

lemma hunkLoop_step:
  "i < length hl \<Longrightarrow> \<not> (hl ! i = [] \<and> i = length hl - 1) \<Longrightarrow>
   hunkLoop ol sel hl i st = hunkLoop ol sel hl (Suc i) (processLine ol sel i (hl ! i) st)"
  by (rule trans [OF hunkLoop.simps]) auto

lemma hunkLoop_stop: "\<not> i < length hl \<Longrightarrow> hunkLoop ol sel hl i st = st"
  by (rule trans [OF hunkLoop.simps]) auto

lemma copyBefore_prefix:
  "fst st = take (snd st) ol \<Longrightarrow> fst (copyBefore ol h st) = take (snd (copyBefore ol h st)) ol"
proof (induction ol h st rule: copyBefore.induct)
  case (1 ol h result i)
  show ?case
  proof (cases "int i < h \<and> i < length ol")
    case True
    with 1 show ?thesis by (simp add: copyBefore_step take_Suc_conv_app_nth)
  next
    case False
    with 1 show ?thesis by (simp add: copyBefore_stop)
  qed
qed

lemma copyRest_prefix:
  "fst st = take (snd st) ol \<Longrightarrow> fst (copyRest ol st) = ol"
proof (induction ol st rule: copyRest.induct)
  case (1 ol result i)
  show ?case
  proof (cases "i < length ol")
    case True
    with 1 show ?thesis by (simp add: copyRest_step take_Suc_conv_app_nth)
  next
    case False
    with 1 show ?thesis by (simp add: copyRest_stop)
  qed
qed

lemma processLine_none_prefix:
  "fst st = take (snd st) ol \<Longrightarrow>
   fst (processLine ol {} i line st) = take (snd (processLine ol {} i line st)) ol"
  by (cases st) (auto simp: processLine_def take_Suc_conv_app_nth)

lemma hunkLoop_none_prefix:
  "fst st = take (snd st) ol \<Longrightarrow>
   fst (hunkLoop ol {} hl i st) = take (snd (hunkLoop ol {} hl i st)) ol"
proof (induction "length hl - i" arbitrary: i st)
  case 0
  then show ?case by (simp add: hunkLoop_stop)
next
  case (Suc n)
  then have lt: "i < length hl" and n: "n = length hl - Suc i" by auto
  show ?case
  proof (cases "hl ! i = [] \<and> i = length hl - 1")
    case True
    from lt True have "hunkLoop ol {} hl i st = hunkLoop ol {} hl (Suc i) st"
      by (rule hunkLoop_skip)
    with Suc(1) [OF n Suc(3)] show ?thesis by simp
  next
    case False
    have "fst (processLine ol {} i (hl ! i) st) = take (snd (processLine ol {} i (hl ! i) st)) ol"
      using Suc(3) by (rule processLine_none_prefix)
    from Suc(1) [OF n this] hunkLoop_step [OF lt False, of ol "{}" st] show ?thesis by simp
  qed
qed

lemma fold_processHunk_none_prefix:
  "fst st = take (snd st) ol \<Longrightarrow>
   fst (fold (processHunk ol Map.empty) hs st) = take (snd (fold (processHunk ol Map.empty) hs st)) ol"
proof (induction hs arbitrary: st)
  case Nil
  then show ?case by simp
next
  case (Cons h hs)
  have "fst (processHunk ol Map.empty h st) = take (snd (processHunk ol Map.empty h st)) ol"
    unfolding processHunk_def getSelected_def using Cons.prems
    by (simp add: hunkLoop_none_prefix copyBefore_prefix)
  then show ?case using Cons.IH by simp
qed

lemma buildFileContent_no_ranges: "buildFileContent originalContent hunkList [] = originalContent"
proof (cases "hunkList = []")
  case True
  then show ?thesis by (simp add: buildFileContent_def)
next
  case False
  have "fst (copyRest (contentLines originalContent)
          (fold (processHunk (contentLines originalContent) Map.empty) hunkList ([], 0)))
        = contentLines originalContent"
    by (rule copyRest_prefix) (simp add: fold_processHunk_none_prefix)
  with False show ?thesis
    by (simp add: buildFileContent_def selectedByHunk_def join_contentLines)
qed


section \<open>The loops and their restatement on lists\<close>

lemma effLen_le: "effLen ls \<le> length ls"
  by (simp add: effLen_def)

lemma effLen_no_skip: "i < effLen ls \<Longrightarrow> \<not> (ls ! i = [] \<and> i = length ls - 1)"
  by (cases "ls = []") (auto simp: effLen_def last_conv_nth split: if_splits)

lemma effLen_skip: "effLen ls < length ls \<Longrightarrow> ls ! effLen ls = [] \<and> effLen ls = length ls - 1"
  by (auto simp: effLen_def last_conv_nth split: if_splits)

lemma hunkLoop_fold_from:
  "i \<le> effLen ls \<Longrightarrow>
   hunkLoop ol sel ls i st = fold (\<lambda>j. processLine ol sel j (ls ! j)) [i..<effLen ls] st"
proof (induction "effLen ls - i" arbitrary: i st)
  case 0
  then have i: "i = effLen ls" by simp
  show ?case
  proof (cases "effLen ls < length ls")
    case True
    from effLen_skip [OF True] True i
    have "hunkLoop ol sel ls i st = hunkLoop ol sel ls (Suc i) st"
      by (intro hunkLoop_skip) auto
    also have "\<dots> = st" using effLen_skip [OF True] True i by (intro hunkLoop_stop) auto
    finally show ?thesis using i by simp
  next
    case False
    with effLen_le [of ls] i have "\<not> i < length ls" by simp
    then show ?thesis using i by (simp add: hunkLoop_stop)
  qed
next
  case (Suc n)
  then have lt: "i < effLen ls" by simp
  with effLen_le [of ls] have il: "i < length ls" by simp
  have step: "hunkLoop ol sel ls i st = hunkLoop ol sel ls (Suc i) (processLine ol sel i (ls ! i) st)"
    using il effLen_no_skip [OF lt] by (rule hunkLoop_step)
  have "n = effLen ls - Suc i" using Suc(2) by simp
  from Suc(1) [OF this] lt
  have "hunkLoop ol sel ls (Suc i) (processLine ol sel i (ls ! i) st) =
        fold (\<lambda>j. processLine ol sel j (ls ! j)) [Suc i..<effLen ls] (processLine ol sel i (ls ! i) st)"
    by simp
  with step lt show ?case by (simp add: upt_conv_Cons)
qed

lemma hunkLoop_fold:
  "hunkLoop ol sel ls 0 st = fold (\<lambda>j. processLine ol sel j (ls ! j)) [0..<effLen ls] st"
  by (rule hunkLoop_fold_from) simp

lemma take1_drop: "take (Suc 0) (drop i ol) = (if i < length ol then [ol ! i] else [])"
  by (cases "i < length ol") (simp_all add: Cons_nth_drop_Suc [symmetric])

lemma getSelected_fold:
  "getSelected (fold (\<lambda>range m. m(hunkId range \<mapsto>
                 (case m (hunkId range) of None \<Rightarrow> {} | Some s \<Rightarrow> s)
                   \<union> {startLineIdx range .. endLineIdx range})) rs m) hid
   = getSelected m hid
       \<union> {j. \<exists>r \<in> set rs. hunkId r = hid \<and> startLineIdx r \<le> j \<and> j \<le> endLineIdx r}"
proof (induction rs arbitrary: m)
  case Nil
  show ?case by simp
next
  case (Cons r rs)
  let ?m = "m(hunkId r \<mapsto> (case m (hunkId r) of None \<Rightarrow> {} | Some s \<Rightarrow> s)
                   \<union> {startLineIdx r .. endLineIdx r})"
  have m: "getSelected ?m hid
           = getSelected m hid \<union> (if hunkId r = hid then {startLineIdx r .. endLineIdx r} else {})"
    by (simp add: getSelected_def split: option.splits)
  show ?case
    by (simp only: fold_simps Cons.IH [of ?m] m) auto
qed

lemma selected_iff: "int i \<in> getSelected (selectedByHunk rs) hid \<longleftrightarrow> isSelected rs hid i"
  unfolding selectedByHunk_def getSelected_fold isSelected_def
  by (simp add: getSelected_def)

lemma processLine_abs:
  "(int j \<in> S) = b \<Longrightarrow>
   absState ol (processLine ol S j l st) = absLine b l (absState ol st)"
  by (cases st) (simp add: absState_def processLine_def absLine_def take1_drop)

lemma fold_processLine_abs:
  "(\<And>j. (int j \<in> S) = sel j) \<Longrightarrow>
   absState ol (fold (\<lambda>j. processLine ol S j ((pre @ xs) ! j))
                  [length pre..<length pre + length xs] st)
   = absLines sel (length pre) xs (absState ol st)"
proof (induction xs arbitrary: pre st)
  case Nil
  show ?case by simp
next
  case (Cons x xs)
  have up: "[length pre..<length pre + length (x # xs)]
            = length pre # [length (pre @ [x])..<length (pre @ [x]) + length xs]"
    using upt_conv_Cons [of "length pre" "length pre + length (x # xs)"] by simp
  have app: "pre @ x # xs = (pre @ [x]) @ xs" by simp
  have "absState ol (fold (\<lambda>j. processLine ol S j ((pre @ x # xs) ! j))
                  [length pre..<length pre + length (x # xs)] st)
        = absLines sel (length (pre @ [x])) xs
            (absState ol (processLine ol S (length pre) x st))"
    unfolding up by (simp only: fold_simps app Cons.IH [OF Cons.prems]) simp
  also have "\<dots> = absLines sel (length pre) (x # xs) (absState ol st)"
    by (simp add: processLine_abs [OF Cons.prems])
  finally show ?case .
qed

lemma absLines_append:
  "absLines sel i (xs @ ys) s = absLines sel (i + length xs) ys (absLines sel i xs s)"
  by (induction xs arbitrary: i s) simp_all

lemma absLine_empty: "absLine b [] s = s"
  by (cases s) (simp add: absLine_def startsWith_def)

lemma absLines_effLen:
  "absLines sel 0 ls s = absLines sel 0 (take (effLen ls) ls) s"
proof (cases "ls \<noteq> [] \<and> last ls = []")
  case False
  then show ?thesis by (auto simp: effLen_def)
next
  case True
  then have ls: "ls = butlast ls @ [[]]"
    by (metis append_butlast_last_id)
  have e: "take (effLen ls) ls = butlast ls"
    using True by (simp add: effLen_def butlast_conv_take)
  have "absLines sel 0 (butlast ls @ [[]]) s = absLines sel 0 (butlast ls) s"
    unfolding absLines_append by (simp add: absLine_empty)
  with ls e show ?thesis by simp
qed

lemma hunkLoop_abs:
  assumes "\<And>j. (int j \<in> S) = sel j"
  shows "absState ol (hunkLoop ol S ls 0 st) = absLines sel 0 ls (absState ol st)"
proof -
  let ?xs = "take (effLen ls) ls"
  have len: "length ?xs = effLen ls" using effLen_le [of ls] by simp
  have "fold (\<lambda>j. processLine ol S j (ls ! j)) [0..<effLen ls] st
        = fold (\<lambda>j. processLine ol S j (([] @ ?xs) ! j)) [length ([] :: string list)..<length ([] :: string list) + length ?xs] st"
    unfolding len by (rule fold_cong) auto
  then show ?thesis
    unfolding hunkLoop_fold absLines_effLen [of sel ls]
    by (simp only: fold_processLine_abs [OF assms]) simp
qed

lemma copyBefore_abs:
  "absState ol (copyBefore ol h st) =
     (case absState ol st of (out, rest) \<Rightarrow>
        (out @ take (nat (h - (int (length ol) - int (length rest)))) rest,
         drop (nat (h - (int (length ol) - int (length rest)))) rest))"
proof (induction ol h st rule: copyBefore.induct)
  case (1 ol h result i)
  show ?case
  proof (cases "int i < h \<and> i < length ol")
    case False
    then show ?thesis
      by (cases "i < length ol") (auto simp: copyBefore_stop absState_def)
  next
    case True
    define k' where "k' = nat (h - int i) - 1"
    from True have K: "nat (h - int i) = Suc k'" by (simp add: k'_def)
    from True have K': "nat (h - (1 + int i)) = k'" by (simp add: k'_def)
    have d: "drop i ol = ol ! i # drop (Suc i) ol"
      using True by (simp add: Cons_nth_drop_Suc)
    from True have e: "int (length ol) - int (length ol - Suc i) = 1 + int i" by auto
    from True have e0: "int (length ol) - int (length ol - i) = int i" by simp
    have step: "copyBefore ol h (result, i) = copyBefore ol h (result @ [ol ! i], Suc i)"
      using True by (simp add: copyBefore_step)
    have lhs: "absState ol (copyBefore ol h (result, i))
               = (result @ ol ! i # take k' (drop (Suc i) ol), drop k' (drop (Suc i) ol))"
      using 1 [OF True] unfolding step by (simp add: absState_def e K')
    have rhs: "(case absState ol (result, i) of (out, rest) \<Rightarrow>
                 (out @ take (nat (h - (int (length ol) - int (length rest)))) rest,
                  drop (nat (h - (int (length ol) - int (length rest)))) rest))
               = (result @ take (Suc k') (drop i ol), drop (Suc k') (drop i ol))"
      by (simp add: absState_def e0 K)
    show ?thesis unfolding lhs rhs by (subst (1 2) d) simp
  qed
qed

lemma copyRest_abs: "fst (copyRest ol st) = fst st @ drop (snd st) ol"
proof (induction ol st rule: copyRest.induct)
  case (1 ol result i)
  show ?case
  proof (cases "i < length ol")
    case True
    with 1 show ?thesis by (simp add: copyRest_step Cons_nth_drop_Suc)
  next
    case False
    then show ?thesis by (simp add: copyRest_stop)
  qed
qed

lemma processHunk_abs:
  "absState ol (processHunk ol (selectedByHunk rs) h st) = absHunk ol rs h (absState ol st)"
proof -
  obtain out rest where a: "absState ol st = (out, rest)" by (cases "absState ol st")
  show ?thesis
    unfolding processHunk_def absHunk_def
    by (simp only: hunkLoop_abs [where sel = "isSelected rs (id_h h)", OF selected_iff]
          copyBefore_abs a) (simp add: Let_def)
qed

lemma fold_processHunk_abs:
  "absState ol (fold (processHunk ol (selectedByHunk rs)) hs st)
   = fold (absHunk ol rs) hs (absState ol st)"
  by (induction hs arbitrary: st) (simp_all add: processHunk_abs)

lemma buildFileContent_abs:
  "buildFileContent originalContent hunkList selectedRanges
   = absReplay originalContent hunkList selectedRanges"
proof (cases "hunkList = []")
  case True
  then show ?thesis by (simp add: buildFileContent_def absReplay_def join_contentLines)
next
  case False
  let ?ol = "contentLines originalContent"
  let ?st = "fold (processHunk ?ol (selectedByHunk selectedRanges)) hunkList ([], 0)"
  obtain out rest where r: "fold (absHunk ?ol selectedRanges) hunkList ([], ?ol) = (out, rest)"
    by (cases "fold (absHunk ?ol selectedRanges) hunkList ([], ?ol)")
  have "absState ?ol ?st = fold (absHunk ?ol selectedRanges) hunkList (absState ?ol ([], 0))"
    by (rule fold_processHunk_abs)
  then have "absState ?ol ?st = (out, rest)" using r by (simp add: absState_def)
  then have "fst ?st = out" "drop (snd ?st) ?ol = rest" by (simp_all add: absState_def)
  then show ?thesis using False r
    by (simp add: buildFileContent_def absReplay_def copyRest_abs)
qed


section \<open>Claims about the replay\<close>

text \<open>
  C10. With an empty hunk list \<^const>\<open>buildFileContent\<close> returns the original content, and
  with an empty selection it returns the original content for every hunk list (whether
  or not the hunks fit the content). So the before-state \<^const>\<open>currentContent\<close> that
  \<^verbatim>\<open>buildPatches\<close> takes for the first group touching a file, the raw original content,
  is the replay over the empty union of ranges.
\<close>

theorem C10_empty_replay_is_original:
  "buildFileContent originalContent [] selectedRanges = originalContent
   \<and> buildFileContent originalContent hunkList [] = originalContent
   \<and> currentContent originalContent hunkList [] = buildFileContent originalContent hunkList []"
  by (simp add: buildFileContent_no_ranges currentContent_def) (simp add: buildFileContent_def)

lemma digitChar_inj:
  assumes "a < 10" "b < 10" "digitChar a = digitChar b"
  shows "a = b"
proof -
  have d: "distinct ''0123456789''" by simp
  have la: "a < length ''0123456789''" using assms(1) by simp
  have lb: "b < length ''0123456789''" using assms(2) by simp
  from nth_eq_iff_index_eq [OF d la lb] assms(3) show ?thesis
    unfolding digitChar_def by blast
qed

lemma digitChar_isDigit: "d < 10 \<Longrightarrow> isDigit (digitChar d)"
  unfolding isDigit_def digitChar_def by (rule nth_mem) simp

lemma showNat_small: "n < 10 \<Longrightarrow> showNat n = [digitChar n]"
  by (subst showNat.simps) simp

lemma showNat_big: "\<not> n < 10 \<Longrightarrow> showNat n = showNat (n div 10) @ [digitChar (n mod 10)]"
  by (subst showNat.simps) simp

lemma showNat_nonempty: "showNat n \<noteq> []"
  by (cases "n < 10") (simp_all add: showNat_small showNat_big)

lemma showNat_digits: "c \<in> set (showNat n) \<Longrightarrow> isDigit c"
proof (induction n rule: showNat.induct)
  case (1 n)
  show ?case
  proof (cases "n < 10")
    case True
    with 1(2) show ?thesis by (simp add: showNat_small digitChar_isDigit)
  next
    case False
    with 1 show ?thesis by (auto simp: showNat_big digitChar_isDigit)
  qed
qed

lemma showNat_inj: "showNat a = showNat b \<Longrightarrow> a = b"
proof (induction a arbitrary: b rule: showNat.induct)
  case (1 a)
  show ?case
  proof (cases "a < 10")
    case True
    show ?thesis
    proof (cases "b < 10")
      case True
      with \<open>a < 10\<close> 1(2) show ?thesis by (simp add: showNat_small digitChar_inj)
    next
      case False
      with \<open>a < 10\<close> 1(2) showNat_nonempty [of "b div 10"] show ?thesis
        by (simp add: showNat_small showNat_big)
    qed
  next
    case False
    show ?thesis
    proof (cases "b < 10")
      case True
      with False 1(2) showNat_nonempty [of "a div 10"] show ?thesis
        by (simp add: showNat_small showNat_big)
    next
      case bf: False
      from False bf 1(2) have e: "showNat (a div 10) = showNat (b div 10)"
        and d: "digitChar (a mod 10) = digitChar (b mod 10)"
        by (simp_all add: showNat_big)
      from 1(1) [OF False e] have "a div 10 = b div 10" .
      moreover from d have "a mod 10 = b mod 10" by (intro digitChar_inj) simp_all
      ultimately show ?thesis by (metis div_mult_mod_eq)
    qed
  qed
qed

lemma not_digit_minus: "\<not> isDigit CHR ''-''" and not_digit_colon: "\<not> isDigit CHR '':''"
  by (simp_all add: isDigit_def)

lemma showInt_inj: "showInt a = showInt b \<Longrightarrow> a = b"
proof -
  assume e: "showInt a = showInt b"
  have hdd: "\<And>n. isDigit (hd (showNat n))"
    using showNat_digits showNat_nonempty by (metis hd_in_set)
  have ne: "CHR ''-'' # showNat n \<noteq> showNat m" for n m
    using hdd [of m] not_digit_minus showNat_nonempty [of m] by (cases "showNat m") auto
  have ne2: "showNat m \<noteq> CHR ''-'' # showNat n" for n m
    using ne [of n m] by auto
  show ?thesis
  proof (cases "a < 0")
    case True
    show ?thesis
    proof (cases "b < 0")
      case True
      with \<open>a < 0\<close> e have "nat (- a) = nat (- b)" by (simp add: showInt_def showNat_inj)
      with True \<open>a < 0\<close> show ?thesis by simp
    next
      case False
      with True e ne show ?thesis by (simp add: showInt_def)
    qed
  next
    case False
    show ?thesis
    proof (cases "b < 0")
      case True
      with False e ne2 [of "nat a" "nat (- b)"] show ?thesis by (simp add: showInt_def)
    next
      case bf: False
      with False e have "nat a = nat b" by (simp add: showInt_def showNat_inj)
      with False bf show ?thesis by simp
    qed
  qed
qed

lemma showInt_no_colon: "CHR '':'' \<notin> set (showInt a)"
  using showNat_digits not_digit_colon by (auto simp: showInt_def)

lemma showInt_cases:
  obtains ds where "showInt a = ds" "ds \<noteq> []" "\<forall>c \<in> set ds. isDigit c"
  | ds where "showInt a = CHR ''-'' # ds" "ds \<noteq> []" "\<forall>c \<in> set ds. isDigit c"
  by (cases "a < 0") (auto simp: showInt_def showNat_nonempty showNat_digits)

lemma split_at_sep:
  assumes "c \<notin> set xs" "c \<notin> set ys" "xs @ c # xs' = ys @ c # ys'"
  shows "xs = ys \<and> xs' = ys'"
  using assms
proof (induction xs arbitrary: ys)
  case Nil
  then show ?case by (cases ys) auto
next
  case (Cons a xs)
  then show ?case by (cases ys) auto
qed

lemma digits_dash_split:
  assumes "\<forall>c \<in> set ds. isDigit c" "\<forall>c \<in> set ds'. isDigit c"
    and "ds @ CHR ''-'' # e = ds' @ CHR ''-'' # e'"
  shows "ds = ds' \<and> e = e'"
proof -
  have "CHR ''-'' \<notin> set ds" "CHR ''-'' \<notin> set ds'"
    using assms(1,2) not_digit_minus by auto
  then show ?thesis using assms(3) by (rule split_at_sep)
qed

lemma showInt_dash_split:
  assumes "showInt s @ CHR ''-'' # e = showInt s' @ CHR ''-'' # e'"
  shows "showInt s = showInt s' \<and> e = e'"
proof (cases s rule: showInt_cases)
  case (1 ds)
  show ?thesis
  proof (cases s' rule: showInt_cases)
    case a: (1 ds')
    with 1 assms digits_dash_split [of ds ds' e e'] show ?thesis by simp
  next
    case b: (2 ds')
    from 1 have "isDigit (hd ds)" by (cases ds) auto
    with 1 b assms not_digit_minus show ?thesis by (cases ds) auto
  qed
next
  case (2 ds)
  show ?thesis
  proof (cases s' rule: showInt_cases)
    case a: (1 ds')
    from a have "isDigit (hd ds')" by (cases ds') auto
    with 2 a assms not_digit_minus show ?thesis by (cases ds') auto
  next
    case b: (2 ds')
    with 2 assms digits_dash_split [of ds ds' e e'] show ?thesis by simp
  qed
qed

lemma rangeKey_split:
  "rangeKey x = showInt (hunkId x) @ CHR '':'' # (showInt (startLineIdx x) @ CHR ''-'' # showInt (endLineIdx x))"
  by (simp add: rangeKey_def)

lemma rangeKey_inj: "rangeKey r = rangeKey r' \<longleftrightarrow> spanOf r = spanOf r'"
proof
  assume "spanOf r = spanOf r'"
  then show "rangeKey r = rangeKey r'" unfolding rangeKey_split by (simp add: spanOf_def)
next
  assume e: "rangeKey r = rangeKey r'"
  have "showInt (hunkId r) = showInt (hunkId r') \<and>
        showInt (startLineIdx r) @ CHR ''-'' # showInt (endLineIdx r)
        = showInt (startLineIdx r') @ CHR ''-'' # showInt (endLineIdx r')"
    using showInt_no_colon showInt_no_colon e [unfolded rangeKey_split]
    by (rule split_at_sep)
  then have h: "showInt (hunkId r) = showInt (hunkId r')"
    and rest: "showInt (startLineIdx r) @ CHR ''-'' # showInt (endLineIdx r)
        = showInt (startLineIdx r') @ CHR ''-'' # showInt (endLineIdx r')"
    by simp_all
  from showInt_dash_split [OF rest] have "showInt (startLineIdx r) = showInt (startLineIdx r')"
    and "showInt (endLineIdx r) = showInt (endLineIdx r')" by simp_all
  with h show "spanOf r = spanOf r'"
    unfolding spanOf_def by (simp add: showInt_inj)
qed

lemma map_of_update_same:
  "map_of m k = Some v \<Longrightarrow> fst ` set (AList.update k v' m) = fst ` set m"
  by (induction m) (auto split: if_splits)

lemma rangesAt_update:
  "map_of m c0 = Some fr \<Longrightarrow>
   rangesAt (AList.update c0 (AList.update p0 rs fr) m) c p
   = (if c = c0 \<and> p = p0 then rs else rangesAt m c p)"
  by (simp add: rangesAt_def update_conv')

lemma flushRange_None [simp]: "flushRange path hid None m = Inr m"
  by (simp add: flushRange_def)

lemma flushRange_Some_ok:
  assumes "commitId_cr cr \<in> fst ` set m"
  shows "\<exists>m'. flushRange path hid (Some cr) m = Inr m'"
proof -
  from assms obtain fr where "map_of m (commitId_cr cr) = Some fr"
    by (metis domD dom_map_of_conv_image_fst)
  then show ?thesis by (simp add: flushRange_def)
qed

lemma flushRange_Some_err:
  "commitId_cr cr \<notin> fst ` set m \<Longrightarrow> flushRange path hid (Some cr) m = Inl TypeError"
  by (simp add: flushRange_def map_of_eq_None_iff [THEN iffD2])

lemma flushRange_Some_eq:
  assumes "flushRange path hid (Some cr) m = Inr m'"
  obtains fr where "map_of m (commitId_cr cr) = Some fr"
    and "m' = AList.update (commitId_cr cr)
          (AList.update path (rangesAt m (commitId_cr cr) path @ [rangeOf hid cr]) fr) m"
  using assms by (auto simp: flushRange_def rangesAt_def split: option.splits)

lemma flushRange_ranges:
  assumes "flushRange path hid cur m = Inr m'"
  shows "rangesAt m' c p = rangesAt m c p @ curAt path hid cur c p"
proof (cases cur)
  case None
  with assms show ?thesis by (simp add: curAt_def)
next
  case (Some cr)
  from assms [unfolded Some] obtain fr where fr: "map_of m (commitId_cr cr) = Some fr"
    and m': "m' = AList.update (commitId_cr cr)
          (AList.update path (rangesAt m (commitId_cr cr) path @ [rangeOf hid cr]) fr) m"
    by (rule flushRange_Some_eq)
  show ?thesis unfolding m' rangesAt_update [OF fr] using Some by (simp add: curAt_def)
qed

lemma flushRange_keys:
  assumes "flushRange path hid cur m = Inr m'"
  shows "fst ` set m' = fst ` set m"
proof (cases cur)
  case None
  with assms show ?thesis by simp
next
  case (Some cr)
  from assms [unfolded Some] obtain fr where fr: "map_of m (commitId_cr cr) = Some fr"
    and m': "m' = AList.update (commitId_cr cr)
          (AList.update path (rangesAt m (commitId_cr cr) path @ [rangeOf hid cr]) fr) m"
    by (rule flushRange_Some_eq)
  show ?thesis unfolding m' by (rule map_of_update_same [OF fr])
qed

lemma flushRange_key_in:
  assumes "flushRange path hid (Some cr) m = Inr m'"
  shows "commitId_cr cr \<in> fst ` set m"
  using assms flushRange_Some_err [of cr m path hid]
  by (cases "commitId_cr cr \<in> fst ` set m") auto

lemma bumpCounter_fields [simp]:
  "currentRange (bumpCounter ty st) = currentRange st"
  "commitFileRanges (bumpCounter ty st) = commitFileRanges st"
  by (simp_all add: bumpCounter_def)

lemma scanLine_context:
  assumes "\<not> isChange l" "scanLine path hid commits classMap i l st = Inr st'"
  obtains m' where "flushRange path hid (currentRange st) (commitFileRanges st) = Inr m'"
    and "currentRange st' = None" and "commitFileRanges st' = m'"
  using assms by (auto simp: scanLine_def isChange_def split: sum.splits)

lemma scanLine_extend:
  assumes "isChange l" "commitFor commits classMap (hid, int i) = Inr cid"
    and "canExtend (currentRange st) cid (lineType l) i"
    and "scanLine path hid commits classMap i l st = Inr st'"
  shows "currentRange st' =
           map_option (\<lambda>cr. cr\<lparr>lines_cr := lines_cr cr @ [slice1 l]\<rparr>) (currentRange st)"
    and "commitFileRanges st' = commitFileRanges st"
  using assms by (auto simp: scanLine_def isChange_def lineType_def Let_def split: sum.splits)

lemma scanLine_start:
  assumes "isChange l" "commitFor commits classMap (hid, int i) = Inr cid"
    and "\<not> canExtend (currentRange st) cid (lineType l) i"
    and "scanLine path hid commits classMap i l st = Inr st'"
  obtains m' where "flushRange path hid (currentRange st) (commitFileRanges st) = Inr m'"
    and "currentRange st' = Some (newRange cid (lineType l) i l st)"
    and "commitFileRanges st' = m'"
  using assms
  by (auto simp: scanLine_def isChange_def lineType_def Let_def newRange_def split: sum.splits)

lemma scanLine_total:
  assumes "isChange l \<Longrightarrow> \<exists>cid. commitFor commits classMap (hid, int i) = Inr cid"
    and "\<exists>m'. flushRange path hid (currentRange st) (commitFileRanges st) = Inr m'"
  shows "\<exists>st'. scanLine path hid commits classMap i l st = Inr st'"
  using assms by (auto simp: scanLine_def isChange_def Let_def split: sum.splits)

lemma flushLawD:
  "flushLaw R hit \<Longrightarrow> flushRange path hid cur m = Inr m' \<Longrightarrow> R m' = R m + curM hit path hid cur"
  unfolding flushLaw_def by blast

lemma itemsOf_simps [simp]:
  "itemsOf {#} = {#}"
  "itemsOf (X + Y) = itemsOf X + itemsOf Y"
  "itemsOf {#r#} = mset (expand r)"
  by (simp_all add: itemsOf_def)

lemma expand_rangeOf:
  "expand (rangeOf hid cr) =
     map (\<lambda>k. (hid, int (startIdx cr) + int k, type_cr cr, lines_cr cr ! k))
         [0..<length (lines_cr cr)]"
  by (simp add: expand_def rangeOf_def)

lemma expand_new: "expand (rangeOf hid (newRange cid ty i l st)) = [(hid, int i, ty, slice1 l)]"
  by (simp add: expand_rangeOf newRange_def)

lemma expand_snoc:
  "expand (rangeOf hid (cr\<lparr>lines_cr := lines_cr cr @ [x]\<rparr>)) =
     expand (rangeOf hid cr)
       @ [(hid, int (startIdx cr) + int (length (lines_cr cr)), type_cr cr, x)]"
  by (simp add: expand_rangeOf nth_append)

lemma canExtendD:
  assumes "canExtend cur cid ty i"
  obtains cr where "cur = Some cr" "commitId_cr cr = cid" "type_cr cr = ty"
    "startIdx cr + length (lines_cr cr) = i"
  using assms by (auto simp: canExtend_def split: option.splits)

lemma step_items:
  assumes law: "flushLaw R hit"
    and link: "commitFor commits classMap (hid, int i) = Inr (g i)"
    and sl: "scanLine path hid commits classMap i (ls ! i) st = Inr st'"
  shows "itemsOf (R (commitFileRanges st') + curM hit path hid (currentRange st')) =
         itemsOf (R (commitFileRanges st) + curM hit path hid (currentRange st))
           + (if isChange (ls ! i) \<and> hit path (g i) then {#itemAt hid ls i#} else {#})"
proof (cases "isChange (ls ! i)")
  case False
  from scanLine_context [OF False sl] obtain m' where
    f: "flushRange path hid (currentRange st) (commitFileRanges st) = Inr m'"
    and c: "currentRange st' = None" and m: "commitFileRanges st' = m'" by blast
  show ?thesis using False
    by (simp add: c m flushLawD [OF law f]) (simp add: curM_def)
next
  case True
  show ?thesis
  proof (cases "canExtend (currentRange st) (g i) (lineType (ls ! i)) i")
    case ext: True
    from canExtendD [OF ext] obtain cr where cr: "currentRange st = Some cr"
      "commitId_cr cr = g i" "type_cr cr = lineType (ls ! i)"
      "startIdx cr + length (lines_cr cr) = i" by blast
    from cr(4) have idx: "int (startIdx cr) + int (length (lines_cr cr)) = int i" by simp
    from scanLine_extend [OF True link ext sl] cr(1)
    have c: "currentRange st' = Some (cr\<lparr>lines_cr := lines_cr cr @ [slice1 (ls ! i)]\<rparr>)"
      and m: "commitFileRanges st' = commitFileRanges st" by simp_all
    show ?thesis using True cr(2,3)
      by (simp add: c m cr(1) curM_def expand_snoc idx itemAt_def)
  next
    case noext: False
    from scanLine_start [OF True link noext sl] obtain m' where
      f: "flushRange path hid (currentRange st) (commitFileRanges st) = Inr m'"
      and c: "currentRange st' = Some (newRange (g i) (lineType (ls ! i)) i (ls ! i) st)"
      and m: "commitFileRanges st' = m'" by blast
    have n: "commitId_cr (newRange (g i) (lineType (ls ! i)) i (ls ! i) st) = g i"
      by (simp add: newRange_def)
    have "curM hit path hid (currentRange st')
          = (if hit path (g i) then {#rangeOf hid (newRange (g i) (lineType (ls ! i)) i (ls ! i) st)#}
             else {#})"
      by (simp add: curM_def c n)
    then show ?thesis using True
      by (simp add: m flushLawD [OF law f] expand_new itemAt_def)
  qed
qed

lemma partialRun_runIn:
  assumes "partialRun g ls cr i" "i \<le> length ls"
  shows "runIn g hid ls (commitId_cr cr) (rangeOf hid cr)"
  using assms by (auto simp: partialRun_def runIn_def rangeOf_def)

lemma flush_keeps:
  assumes law: "flushLaw R hit"
    and f: "flushRange path hid cur m = Inr m'"
    and ok: "curOK g ls cur i" and i: "i \<le> length ls"
    and r: "r \<in># R m'"
    and q: "\<And>c r. hit path c \<Longrightarrow> runIn g hid ls c r \<Longrightarrow> Q r"
    and all: "\<And>r. r \<in># R m \<Longrightarrow> Q r"
  shows "Q r"
proof -
  from r have "r \<in># R m \<or> r \<in># curM hit path hid cur"
    by (simp add: flushLawD [OF law f])
  then show ?thesis
  proof
    assume "r \<in># R m"
    then show ?thesis by (rule all)
  next
    assume "r \<in># curM hit path hid cur"
    then obtain cr where cr: "cur = Some cr" "hit path (commitId_cr cr)" "r = rangeOf hid cr"
      by (auto simp: curM_def split: option.splits if_splits)
    from ok cr(1) have "partialRun g ls cr i" by (simp add: curOK_def)
    from partialRun_runIn [OF this i] cr show ?thesis by (auto intro: q)
  qed
qed

lemma step_ranges:
  assumes law: "flushLaw R hit"
    and link: "commitFor commits classMap (hid, int i) = Inr (g i)"
    and sl: "scanLine path hid commits classMap i (ls ! i) st = Inr st'"
    and ok: "curOK g ls (currentRange st) i" and i: "i \<le> length ls"
    and r: "r \<in># R (commitFileRanges st')"
    and q: "\<And>c r. hit path c \<Longrightarrow> runIn g hid ls c r \<Longrightarrow> Q r"
    and all: "\<And>r. r \<in># R (commitFileRanges st) \<Longrightarrow> Q r"
  shows "Q r"
proof (cases "isChange (ls ! i)")
  case False
  from scanLine_context [OF False sl] obtain m' where
    f: "flushRange path hid (currentRange st) (commitFileRanges st) = Inr m'"
    and m: "commitFileRanges st' = m'" by blast
  from r have "r \<in># R m'" unfolding m .
  with law f ok i show ?thesis using q all by (rule flush_keeps [where Q = Q])
next
  case True
  show ?thesis
  proof (cases "canExtend (currentRange st) (g i) (lineType (ls ! i)) i")
    case ext: True
    from scanLine_extend(2) [OF True link ext sl] r all show ?thesis by simp
  next
    case noext: False
    from scanLine_start [OF True link noext sl] obtain m' where
      f: "flushRange path hid (currentRange st) (commitFileRanges st) = Inr m'"
      and m: "commitFileRanges st' = m'" by blast
    from r have "r \<in># R m'" unfolding m .
    with law f ok i show ?thesis using q all by (rule flush_keeps [where Q = Q])
  qed
qed

lemma step_keys:
  assumes link: "commitFor commits classMap (hid, int i) = Inr (g i)"
    and sl: "scanLine path hid commits classMap i (ls ! i) st = Inr st'"
  shows "fst ` set (commitFileRanges st') = fst ` set (commitFileRanges st)"
proof (cases "isChange (ls ! i)")
  case False
  from scanLine_context [OF False sl] flushRange_keys show ?thesis by metis
next
  case True
  show ?thesis
  proof (cases "canExtend (currentRange st) (g i) (lineType (ls ! i)) i")
    case ext: True
    from scanLine_extend(2) [OF True link ext sl] show ?thesis by simp
  next
    case noext: False
    from scanLine_start [OF True link noext sl] flushRange_keys show ?thesis by metis
  qed
qed

lemma step_curOK:
  assumes link: "commitFor commits classMap (hid, int i) = Inr (g i)"
    and sl: "scanLine path hid commits classMap i (ls ! i) st = Inr st'"
    and ok: "curOK g ls (currentRange st) i"
  shows "curOK g ls (currentRange st') (Suc i)"
proof (cases "isChange (ls ! i)")
  case False
  from scanLine_context [OF False sl] have "currentRange st' = None" by blast
  with False show ?thesis by (simp add: curOK_def)
next
  case True
  show ?thesis
  proof (cases "canExtend (currentRange st) (g i) (lineType (ls ! i)) i")
    case ext: True
    from canExtendD [OF ext] obtain cr where cr: "currentRange st = Some cr"
      "commitId_cr cr = g i" "type_cr cr = lineType (ls ! i)"
      "startIdx cr + length (lines_cr cr) = i" by blast
    from scanLine_extend(1) [OF True link ext sl] cr(1)
    have c: "currentRange st' = Some (cr\<lparr>lines_cr := lines_cr cr @ [slice1 (ls ! i)]\<rparr>)"
      by simp
    from ok cr(1) have p: "partialRun g ls cr i" by (simp add: curOK_def)
    have "partialRun g ls (cr\<lparr>lines_cr := lines_cr cr @ [slice1 (ls ! i)]\<rparr>) (Suc i)"
      unfolding partialRun_def
    proof (intro conjI allI impI)
      fix k
      assume "k < length (lines_cr (cr\<lparr>lines_cr := lines_cr cr @ [slice1 (ls ! i)]\<rparr>))"
      then have k: "k < length (lines_cr cr) \<or> k = length (lines_cr cr)" by auto
      then show "sameRun g ls (commitId_cr (cr\<lparr>lines_cr := lines_cr cr @ [slice1 (ls ! i)]\<rparr>))
                   (type_cr (cr\<lparr>lines_cr := lines_cr cr @ [slice1 (ls ! i)]\<rparr>))
                   (startIdx (cr\<lparr>lines_cr := lines_cr cr @ [slice1 (ls ! i)]\<rparr>) + k)"
        using p cr(2,3,4) True by (auto simp: partialRun_def sameRun_def)
      from k show "slice1 (ls ! (startIdx (cr\<lparr>lines_cr := lines_cr cr @ [slice1 (ls ! i)]\<rparr>) + k))
                = lines_cr (cr\<lparr>lines_cr := lines_cr cr @ [slice1 (ls ! i)]\<rparr>) ! k"
        using p cr(4) by (auto simp: partialRun_def nth_append)
    qed (use p cr(4) in \<open>auto simp: partialRun_def\<close>)
    then show ?thesis by (simp add: curOK_def c)
  next
    case noext: False
    from scanLine_start [OF True link noext sl]
    have c: "currentRange st' = Some (newRange (g i) (lineType (ls ! i)) i (ls ! i) st)"
      by blast
    have left: "i = 0 \<or> \<not> sameRun g ls (g i) (lineType (ls ! i)) (i - 1)"
    proof (cases "currentRange st")
      case None
      with ok show ?thesis by (auto simp: curOK_def sameRun_def)
    next
      case (Some cr)
      with ok have p: "partialRun g ls cr i" by (simp add: curOK_def)
      then have len: "lines_cr cr \<noteq> []" and e: "startIdx cr + length (lines_cr cr) = i"
        by (simp_all add: partialRun_def)
      from len have "length (lines_cr cr) - 1 < length (lines_cr cr)" by (cases "lines_cr cr") auto
      with p have "sameRun g ls (commitId_cr cr) (type_cr cr)
                     (startIdx cr + (length (lines_cr cr) - 1))"
        unfolding partialRun_def by blast
      moreover from len e have "startIdx cr + (length (lines_cr cr) - 1) = i - 1"
        by (cases "lines_cr cr") auto
      ultimately have s: "sameRun g ls (commitId_cr cr) (type_cr cr) (i - 1)" by simp
      from noext Some e have "commitId_cr cr \<noteq> g i \<or> type_cr cr \<noteq> lineType (ls ! i)"
        by (auto simp: canExtend_def)
      with s show ?thesis by (auto simp: sameRun_def)
    qed
    have "partialRun g ls (newRange (g i) (lineType (ls ! i)) i (ls ! i) st) (Suc i)"
      using True left by (auto simp: partialRun_def newRange_def sameRun_def)
    then show ?thesis by (simp add: curOK_def c)
  qed
qed

lemma scanLoop_skip:
  "i < length hl \<Longrightarrow> hl ! i = [] \<and> i = length hl - 1 \<Longrightarrow>
   scanLoop p hid cs cm hl i st = scanLoop p hid cs cm hl (Suc i) st"
  by (rule trans [OF scanLoop.simps]) auto

lemma scanLoop_step:
  "i < length hl \<Longrightarrow> \<not> (hl ! i = [] \<and> i = length hl - 1) \<Longrightarrow>
   scanLoop p hid cs cm hl i st =
     (case scanLine p hid cs cm i (hl ! i) st of
        Inl e \<Rightarrow> Inl e
      | Inr st' \<Rightarrow> scanLoop p hid cs cm hl (Suc i) st')"
  by (rule trans [OF scanLoop.simps]) auto

lemma scanLoop_stop: "\<not> i < length hl \<Longrightarrow> scanLoop p hid cs cm hl i st = Inr st"
  by (rule trans [OF scanLoop.simps]) auto

lemma scanLoop_fold_from:
  "i \<le> effLen ls \<Longrightarrow>
   scanLoop p hid cs cm ls i st = foldE (\<lambda>j. scanLine p hid cs cm j (ls ! j)) [i..<effLen ls] st"
proof (induction "effLen ls - i" arbitrary: i st)
  case 0
  then have i: "i = effLen ls" by simp
  show ?case
  proof (cases "effLen ls < length ls")
    case True
    from effLen_skip [OF True] True i
    have "scanLoop p hid cs cm ls i st = scanLoop p hid cs cm ls (Suc i) st"
      by (intro scanLoop_skip) auto
    also have "\<dots> = Inr st" using effLen_skip [OF True] True i by (intro scanLoop_stop) auto
    finally show ?thesis using i by simp
  next
    case False
    with effLen_le [of ls] i have "\<not> i < length ls" by simp
    then show ?thesis using i by (simp add: scanLoop_stop)
  qed
next
  case (Suc n)
  then have lt: "i < effLen ls" by simp
  with effLen_le [of ls] have il: "i < length ls" by simp
  have step: "scanLoop p hid cs cm ls i st =
     (case scanLine p hid cs cm i (ls ! i) st of
        Inl e \<Rightarrow> Inl e
      | Inr st' \<Rightarrow> scanLoop p hid cs cm ls (Suc i) st')"
    using il effLen_no_skip [OF lt] by (rule scanLoop_step)
  have n: "n = effLen ls - Suc i" using Suc(2) by simp
  have u: "[i..<effLen ls] = i # [Suc i..<effLen ls]" using lt by (simp add: upt_conv_Cons)
  show ?case
  proof (cases "scanLine p hid cs cm i (ls ! i) st")
    case (Inl e)
    then show ?thesis unfolding step u by simp
  next
    case (Inr st')
    from Suc(1) [OF n, of st'] lt Inr show ?thesis unfolding step u by simp
  qed
qed

lemma foldE_upt_inv:
  assumes "foldE f [i..<n] s = Inr s'" "P i s" "i \<le> n"
    and "\<And>j t t'. j < n \<Longrightarrow> P j t \<Longrightarrow> f j t = Inr t' \<Longrightarrow> P (Suc j) t'"
  shows "P n s'"
  using assms(1,2,3)
proof (induction "n - i" arbitrary: i s)
  case 0
  then show ?case by simp
next
  case (Suc k)
  then have lt: "i < n" by simp
  then have u: "[i..<n] = i # [Suc i..<n]" by (simp add: upt_conv_Cons)
  from Suc(3) [unfolded u] obtain t where t: "f i s = Inr t" and r: "foldE f [Suc i..<n] t = Inr s'"
    by (cases "f i s") auto
  have "P (Suc i) t" using lt Suc(4) t by (rule assms(4))
  moreover have "k = n - Suc i" using Suc(2) by simp
  ultimately show ?case using r lt Suc(1) by simp
qed

lemma foldE_upt_total:
  assumes "P i s" "i \<le> n"
    and "\<And>j t. j < n \<Longrightarrow> P j t \<Longrightarrow> \<exists>t'. f j t = Inr t' \<and> P (Suc j) t'"
  shows "\<exists>s'. foldE f [i..<n] s = Inr s' \<and> P n s'"
  using assms(1,2)
proof (induction "n - i" arbitrary: i s)
  case 0
  then show ?case by simp
next
  case (Suc k)
  then have lt: "i < n" by simp
  then have u: "[i..<n] = i # [Suc i..<n]" by (simp add: upt_conv_Cons)
  from assms(3) [OF lt Suc(3)] obtain t where t: "f i s = Inr t" and p: "P (Suc i) t" by blast
  have "k = n - Suc i" using Suc(2) by simp
  from Suc(1) [OF this p] lt obtain s' where "foldE f [Suc i..<n] t = Inr s'" "P n s'" by auto
  then show ?case unfolding u using t by simp
qed

lemma lineItems_Suc:
  "lineItems sel hid ls (Suc i) =
     lineItems sel hid ls i @ (if isChange (ls ! i) \<and> sel i then [itemAt hid ls i] else [])"
  by (simp add: lineItems_def)

lemma isChange_empty [simp]: "\<not> isChange []"
  by (simp add: isChange_def startsWith_def)

lemma lineItems_effLen: "lineItems sel hid ls (effLen ls) = lineItems sel hid ls (length ls)"
proof (cases "effLen ls < length ls")
  case True
  from effLen_skip [OF True] True have "length ls = Suc (effLen ls)" "ls ! effLen ls = []" by auto
  then show ?thesis by (simp add: lineItems_Suc)
next
  case False
  with effLen_le [of ls] show ?thesis by simp
qed

lemma extractHunk_alt:
  "extractHunk commits classMap path hunk m =
     (case foldE (\<lambda>j. scanLine path (id_h hunk) commits classMap j (split_nl (content hunk) ! j))
             [0..<effLen (split_nl (content hunk))] (initState hunk m) of
        Inl e \<Rightarrow> Inl e
      | Inr st \<Rightarrow> flushRange path (id_h hunk) (currentRange st) (commitFileRanges st))"
  unfolding extractHunk_def initState_def
  by (simp add: scanLoop_fold_from [of 0, simplified])

lemma extractHunk_Inr:
  assumes "extractHunk commits classMap path hunk m = Inr m'"
  obtains st where
    "foldE (\<lambda>j. scanLine path (id_h hunk) commits classMap j (split_nl (content hunk) ! j))
       [0..<effLen (split_nl (content hunk))] (initState hunk m) = Inr st"
    "flushRange path (id_h hunk) (currentRange st) (commitFileRanges st) = Inr m'"
  using assms unfolding extractHunk_alt by (auto split: sum.splits)

lemma extractHunk_items:
  assumes law: "flushLaw R hit"
    and link: "\<And>i. commitFor commits classMap (id_h hunk, int i) = Inr (g i)"
    and ex: "extractHunk commits classMap path hunk m = Inr m'"
  shows "itemsOf (R m') =
         itemsOf (R m)
           + mset (lineItems (\<lambda>i. hit path (g i)) (id_h hunk) (split_nl (content hunk))
                     (length (split_nl (content hunk))))"
proof -
  let ?ls = "split_nl (content hunk)" and ?hid = "id_h hunk"
  let ?P = "\<lambda>i (st::ScanState).
         itemsOf (R (commitFileRanges st) + curM hit path ?hid (currentRange st)) =
         itemsOf (R m) + mset (lineItems (\<lambda>i. hit path (g i)) ?hid ?ls i)"
  from extractHunk_Inr [OF ex] obtain st where
    fo: "foldE (\<lambda>j. scanLine path ?hid commits classMap j (?ls ! j)) [0..<effLen ?ls]
           (initState hunk m) = Inr st"
    and fl: "flushRange path ?hid (currentRange st) (commitFileRanges st) = Inr m'" by blast
  have "?P (effLen ?ls) st"
  proof (rule foldE_upt_inv [where P = ?P, OF fo])
    show "?P 0 (initState hunk m)"
      by (simp add: initState_def curM_def lineItems_def)
  next
    fix j t t'
    assume P: "?P j t" and sl: "scanLine path ?hid commits classMap j (?ls ! j) t = Inr t'"
    from step_items [where g = g, OF law link sl] P show "?P (Suc j) t'"
      by (simp add: lineItems_Suc)
  qed simp
  then show ?thesis
    by (simp add: flushLawD [OF law fl] lineItems_effLen)
qed

lemma extractHunk_keys:
  assumes link: "\<And>i. commitFor commits classMap (id_h hunk, int i) = Inr (g i)"
    and ex: "extractHunk commits classMap path hunk m = Inr m'"
  shows "fst ` set m' = fst ` set m"
proof -
  let ?ls = "split_nl (content hunk)" and ?hid = "id_h hunk"
  let ?P = "\<lambda>(i::nat) (st::ScanState). fst ` set (commitFileRanges st) = fst ` set m"
  from extractHunk_Inr [OF ex] obtain st where
    fo: "foldE (\<lambda>j. scanLine path ?hid commits classMap j (?ls ! j)) [0..<effLen ?ls]
           (initState hunk m) = Inr st"
    and fl: "flushRange path ?hid (currentRange st) (commitFileRanges st) = Inr m'" by blast
  have "?P (effLen ?ls) st"
  proof (rule foldE_upt_inv [where P = ?P, OF fo])
    show "?P 0 (initState hunk m)" by (simp add: initState_def)
  next
    fix j t t'
    assume P: "?P j t" and sl: "scanLine path ?hid commits classMap j (?ls ! j) t = Inr t'"
    from step_keys [where g = g, OF link sl] P show "?P (Suc j) t'" by simp
  qed simp
  then show ?thesis using flushRange_keys [OF fl] by simp
qed

lemma extractHunk_ranges:
  assumes law: "flushLaw R hit"
    and link: "\<And>i. commitFor commits classMap (id_h hunk, int i) = Inr (g i)"
    and ex: "extractHunk commits classMap path hunk m = Inr m'"
    and r: "r \<in># R m'"
    and q: "\<And>c r. hit path c \<Longrightarrow> runIn g (id_h hunk) (split_nl (content hunk)) c r \<Longrightarrow> Q r"
    and all: "\<And>r. r \<in># R m \<Longrightarrow> Q r"
  shows "Q r"
proof -
  let ?ls = "split_nl (content hunk)" and ?hid = "id_h hunk"
  let ?P = "\<lambda>i (st::ScanState). curOK g ?ls (currentRange st) i
              \<and> (\<forall>r. r \<in># R (commitFileRanges st) \<longrightarrow> Q r)"
  from extractHunk_Inr [OF ex] obtain st where
    fo: "foldE (\<lambda>j. scanLine path ?hid commits classMap j (?ls ! j)) [0..<effLen ?ls]
           (initState hunk m) = Inr st"
    and fl: "flushRange path ?hid (currentRange st) (commitFileRanges st) = Inr m'" by blast
  have "?P (effLen ?ls) st"
  proof (rule foldE_upt_inv [where P = ?P, OF fo])
    show "?P 0 (initState hunk m)" using all by (simp add: initState_def curOK_def)
  next
    fix j t t'
    assume j: "j < effLen ?ls" and P: "?P j t"
      and sl: "scanLine path ?hid commits classMap j (?ls ! j) t = Inr t'"
    from j effLen_le [of ?ls] have jl: "j \<le> length ?ls" by simp
    from P have ok: "curOK g ?ls (currentRange t) j"
      and a: "\<And>r. r \<in># R (commitFileRanges t) \<Longrightarrow> Q r" by blast+
    have "curOK g ?ls (currentRange t') (Suc j)"
      using link sl ok by (rule step_curOK [where g = g])
    moreover have "Q r" if "r \<in># R (commitFileRanges t')" for r
      using law link sl ok jl that q a by (rule step_ranges [where Q = Q and g = g])
    ultimately show "?P (Suc j) t'" by blast
  qed simp
  then have ok: "curOK g ?ls (currentRange st) (effLen ?ls)"
    and a: "\<And>r. r \<in># R (commitFileRanges st) \<Longrightarrow> Q r" by blast+
  from law fl ok effLen_le [of ?ls] r q a show ?thesis by (rule flush_keeps [where Q = Q])
qed

lemma extractHunk_total:
  assumes link: "\<And>i. commitFor commits classMap (id_h hunk, int i) = Inr (g i)"
    and keys: "\<And>i. g i \<in> fst ` set m"
  shows "\<exists>m'. extractHunk commits classMap path hunk m = Inr m'"
proof -
  let ?ls = "split_nl (content hunk)" and ?hid = "id_h hunk"
  let ?K = "fst ` set m"
  let ?P = "\<lambda>(i::nat) (st::ScanState). fst ` set (commitFileRanges st) = ?K
              \<and> (\<forall>cr. currentRange st = Some cr \<longrightarrow> commitId_cr cr \<in> ?K)"
  have "\<exists>st. foldE (\<lambda>j. scanLine path ?hid commits classMap j (?ls ! j)) [0..<effLen ?ls]
           (initState hunk m) = Inr st \<and> ?P (effLen ?ls) st"
  proof (rule foldE_upt_total [where P = ?P])
    show "?P 0 (initState hunk m)" by (simp add: initState_def)
  next
    fix j t
    assume P: "?P j t"
    have fl: "\<exists>m'. flushRange path ?hid (currentRange t) (commitFileRanges t) = Inr m'"
    proof (cases "currentRange t")
      case None
      then show ?thesis by simp
    next
      case (Some cr)
      with P show ?thesis by (auto intro: flushRange_Some_ok)
    qed
    have "\<exists>t'. scanLine path ?hid commits classMap j (?ls ! j) t = Inr t'"
      using link fl by (intro scanLine_total) auto
    then obtain t' where sl: "scanLine path ?hid commits classMap j (?ls ! j) t = Inr t'" ..
    have k: "fst ` set (commitFileRanges t') = ?K"
      using step_keys [where g = g, OF link sl] P by simp
    have cK: "commitId_cr cr \<in> ?K" if c: "currentRange t' = Some cr" for cr
    proof (cases "isChange (?ls ! j)")
      case False
      from scanLine_context [OF False sl] have "currentRange t' = None" by blast
      with c show ?thesis by simp
    next
      case True
      show ?thesis
      proof (cases "canExtend (currentRange t) (g j) (lineType (?ls ! j)) j")
        case ext: True
        from scanLine_extend(1) [OF True link ext sl] c
        obtain cr0 where c0: "currentRange t = Some cr0"
          and e: "cr = cr0\<lparr>lines_cr := lines_cr cr0 @ [slice1 (?ls ! j)]\<rparr>"
          by (cases "currentRange t") simp_all
        from P c0 have "commitId_cr cr0 \<in> ?K" by blast
        then show ?thesis unfolding e by simp
      next
        case noext: False
        from scanLine_start [OF True link noext sl]
        have "currentRange t' = Some (newRange (g j) (lineType (?ls ! j)) j (?ls ! j) t)"
          by blast
        with c have "commitId_cr cr = g j" by (auto simp: newRange_def)
        with keys [of j] show ?thesis by simp
      qed
    qed
    from cK have "\<forall>cr. currentRange t' = Some cr \<longrightarrow> commitId_cr cr \<in> ?K" by simp
    with k have "?P (Suc j) t'" by simp
    with sl show "\<exists>t'. scanLine path ?hid commits classMap j (?ls ! j) t = Inr t' \<and> ?P (Suc j) t'"
      by (intro exI [of _ t'] conjI) simp_all
  qed simp
  then obtain st where
    fo: "foldE (\<lambda>j. scanLine path ?hid commits classMap j (?ls ! j)) [0..<effLen ?ls]
           (initState hunk m) = Inr st" and P: "?P (effLen ?ls) st" by blast
  have "\<exists>m'. flushRange path ?hid (currentRange st) (commitFileRanges st) = Inr m'"
  proof (cases "currentRange st")
    case None
    then show ?thesis by simp
  next
    case (Some cr)
    with P show ?thesis by (auto intro: flushRange_Some_ok)
  qed
  then obtain m' where "flushRange path ?hid (currentRange st) (commitFileRanges st) = Inr m'" ..
  then have "extractHunk commits classMap path hunk m = Inr m'"
    by (simp only: extractHunk_alt fo sum.case)
  then show ?thesis ..
qed

lemma flushLaw_path: "flushLaw (\<lambda>m. mset (rangesAt m c p)) (hitPath c p)"
  unfolding flushLaw_def
proof (intro allI impI)
  fix path hid cur m m'
  assume f: "flushRange path hid cur m = Inr m'"
  have "mset (curAt path hid cur c p) = curM (hitPath c p) path hid cur"
    by (auto simp: curAt_def curM_def hitPath_def split: option.splits)
  then show "mset (rangesAt m' c p) = mset (rangesAt m c p) + curM (hitPath c p) path hid cur"
    by (simp add: flushRange_ranges [OF f])
qed

lemma mset_concat_update:
  "mset (concat (map snd (AList.update p ((case map_of fr p of None \<Rightarrow> [] | Some rs \<Rightarrow> rs) @ [r]) fr)))
   = mset (concat (map snd fr)) + {#r#}"
  by (induction fr) auto

lemma allAt_update:
  "map_of m c0 = Some fr \<Longrightarrow>
   allAt (AList.update c0 fr' m) c = (if c = c0 then concat (map snd fr') else allAt m c)"
  by (simp add: allAt_def update_conv')

lemma flushLaw_group: "flushLaw (\<lambda>m. mset (allAt m c)) (hitGroup c)"
  unfolding flushLaw_def
proof (intro allI impI)
  fix path hid cur m m'
  assume f: "flushRange path hid cur m = Inr m'"
  show "mset (allAt m' c) = mset (allAt m c) + curM (hitGroup c) path hid cur"
  proof (cases cur)
    case None
    with f show ?thesis by (simp add: curM_def)
  next
    case (Some cr)
    from f [unfolded Some] obtain fr where fr: "map_of m (commitId_cr cr) = Some fr"
      and m': "m' = AList.update (commitId_cr cr)
          (AList.update path (rangesAt m (commitId_cr cr) path @ [rangeOf hid cr]) fr) m"
      by (rule flushRange_Some_eq)
    have ra: "rangesAt m (commitId_cr cr) path = (case map_of fr path of None \<Rightarrow> [] | Some rs \<Rightarrow> rs)"
      by (simp add: rangesAt_def fr)
    show ?thesis
    proof (cases "commitId_cr cr = c")
      case True
      then have "allAt m c = concat (map snd fr)" using fr by (simp add: allAt_def)
      then show ?thesis unfolding m' allAt_update [OF fr] ra using True Some
        by (simp add: mset_concat_update curM_def hitGroup_def)
    next
      case False
      then show ?thesis unfolding m' allAt_update [OF fr] using Some
        by (auto simp: curM_def hitGroup_def)
    qed
  qed
qed

lemma rangesAt_subset_allAt: "set (rangesAt m c p) \<subseteq> set (allAt m c)"
proof (cases "map_of m c")
  case None
  then show ?thesis by (simp add: rangesAt_def)
next
  case (Some fr)
  show ?thesis
  proof (cases "map_of fr p")
    case None
    with Some show ?thesis by (simp add: rangesAt_def)
  next
    case rs: (Some rs)
    then have "(p, rs) \<in> set fr" by (rule map_of_SomeD)
    then have "set rs \<subseteq> set (concat (map snd fr))" by force
    with Some rs show ?thesis by (simp add: rangesAt_def allAt_def)
  qed
qed

lemma commitFor_link:
  "commits \<noteq> [] \<Longrightarrow> commitFor commits classMap (hid, int i) = Inr (cidOf commits classMap hid i)"
  by (cases commits) (auto simp: cidOf_def commitFor_def firstCommitId_def split: option.splits)

lemma foldE_inv:
  assumes "foldE f xs s = Inr s'" "P s"
    and "\<And>x t t'. x \<in> set xs \<Longrightarrow> P t \<Longrightarrow> f x t = Inr t' \<Longrightarrow> P t'"
  shows "P s'"
  using assms
proof (induction xs arbitrary: s)
  case Nil
  then show ?case by simp
next
  case (Cons x xs)
  from Cons.prems(1) obtain t where t: "f x s = Inr t" and r: "foldE f xs t = Inr s'"
    by (cases "f x s") auto
  have "P t" using Cons.prems(2) t by (intro Cons.prems(3) [of x s t]) simp_all
  with r show ?case by (intro Cons.IH [of t]) (auto intro: Cons.prems(3))
qed

lemma foldE_total:
  assumes "P s" and "\<And>x t. x \<in> set xs \<Longrightarrow> P t \<Longrightarrow> \<exists>t'. f x t = Inr t' \<and> P t'"
  shows "\<exists>s'. foldE f xs s = Inr s' \<and> P s'"
  using assms
proof (induction xs arbitrary: s)
  case Nil
  then show ?case by simp
next
  case (Cons x xs)
  from Cons.prems(2) [of x s] Cons.prems(1) obtain t where t: "f x s = Inr t" and p: "P t"
    by auto
  have "\<exists>s'. foldE f xs t = Inr s' \<and> P s'"
    using p by (rule Cons.IH) (auto intro: Cons.prems(2))
  with t show ?case by simp
qed

lemma extractFile_items:
  assumes law: "flushLaw R hit" and ne: "commits \<noteq> []"
  shows "foldE (extractHunk commits classMap path) hs m = Inr m' \<Longrightarrow>
         itemsOf (R m') = itemsOf (R m)
           + mset (concat (map (hunkItems commits classMap (hit path)) hs))"
proof (induction hs arbitrary: m)
  case Nil
  then show ?case by simp
next
  case (Cons h hs)
  from Cons.prems obtain m1 where h: "extractHunk commits classMap path h m = Inr m1"
    and r: "foldE (extractHunk commits classMap path) hs m1 = Inr m'"
    by (cases "extractHunk commits classMap path h m") auto
  from extractHunk_items [where g = "cidOf commits classMap (id_h h)", OF law commitFor_link [OF ne] h]
  have "itemsOf (R m1) = itemsOf (R m) + mset (hunkItems commits classMap (hit path) h)"
    by (simp add: hunkItems_def)
  with Cons.IH [OF r] show ?case by simp
qed

lemma extractFiles_items:
  assumes law: "flushLaw R hit" and ne: "commits \<noteq> []"
  shows "foldE (extractFile commits classMap) fs m = Inr m' \<Longrightarrow>
         itemsOf (R m') = itemsOf (R m) + mset (diffItems commits classMap hit fs)"
proof (induction fs arbitrary: m)
  case Nil
  then show ?case by (simp add: diffItems_def)
next
  case (Cons f fs)
  from Cons.prems obtain m1 where h: "extractFile commits classMap f m = Inr m1"
    and r: "foldE (extractFile commits classMap) fs m1 = Inr m'"
    by (cases "extractFile commits classMap f m") auto
  from extractFile_items [OF law ne h [unfolded extractFile_def]]
  have "itemsOf (R m1) = itemsOf (R m) + mset (fileItems commits classMap hit f)"
    by (simp add: fileItems_def)
  with Cons.IH [OF r] show ?case by (simp add: diffItems_def)
qed

lemma extractFiles_keys:
  assumes ne: "commits \<noteq> []"
    and ex: "foldE (extractFile commits classMap) fs m = Inr m'"
  shows "fst ` set m' = fst ` set m"
proof (rule foldE_inv [where P = "\<lambda>x. fst ` set x = fst ` set m", OF ex])
  fix f t t'
  assume k: "fst ` set t = fst ` set m" and e: "extractFile commits classMap f t = Inr t'"
  show "fst ` set t' = fst ` set m"
  proof (rule foldE_inv [where P = "\<lambda>x. fst ` set x = fst ` set m", OF e [unfolded extractFile_def] k])
    fix h u u'
    assume "fst ` set u = fst ` set m" "extractHunk commits classMap (filePath f) h u = Inr u'"
    with extractHunk_keys [where g = "cidOf commits classMap (id_h h)", OF commitFor_link [OF ne]]
    show "fst ` set u' = fst ` set m" by simp
  qed
qed simp

lemma extractFiles_ranges:
  assumes ne: "commits \<noteq> []"
    and ex: "foldE (extractFile commits classMap) fs m = Inr m'"
    and all: "\<And>r. r \<in> set (allAt m c) \<Longrightarrow> isRunOf commits classMap fs c r"
    and r: "r \<in> set (allAt m' c)"
  shows "isRunOf commits classMap fs c r"
proof -
  let ?Q = "isRunOf commits classMap fs c"
  let ?P = "\<lambda>x. \<forall>r. r \<in># mset (allAt x c) \<longrightarrow> ?Q r"
  have "?P m'"
  proof (rule foldE_inv [where P = ?P, OF ex])
    show "?P m" using all by simp
  next
    fix f t t'
    assume fin: "f \<in> set fs" and P: "?P t" and e: "extractFile commits classMap f t = Inr t'"
    show "?P t'"
    proof (rule foldE_inv [where P = ?P, OF e [unfolded extractFile_def] P])
      fix h u u'
      assume hin: "h \<in> set (hunks f)" and Pu: "?P u"
        and eh: "extractHunk commits classMap (filePath f) h u = Inr u'"
      show "?P u'"
      proof (intro allI impI)
        fix r
        assume r: "r \<in># mset (allAt u' c)"
        show "?Q r"
        proof (rule extractHunk_ranges [where Q = ?Q and g = "cidOf commits classMap (id_h h)"
              and R = "\<lambda>m. mset (allAt m c)", OF flushLaw_group commitFor_link [OF ne] eh r])
          fix c' r'
          assume "hitGroup c (filePath f) c'"
            and "runIn (cidOf commits classMap (id_h h)) (id_h h) (split_nl (content h)) c' r'"
          with fin hin show "?Q r'" by (auto simp: isRunOf_def hitGroup_def)
        next
          fix r'
          assume "r' \<in># mset (allAt u c)"
          with Pu show "?Q r'" by blast
        qed
      qed
    qed
  qed
  with r show ?thesis by simp
qed

lemma update_set: "x \<in> set (AList.update k v al) \<Longrightarrow> x = (k, v) \<or> x \<in> set al"
  by (induction al) (auto split: if_splits)

lemma initialRanges_values:
  "(k, v) \<in> set (fold (\<lambda>commit m. AList.update (id_p commit) [] m) cs m0) \<Longrightarrow>
   (\<And>k v. (k, v) \<in> set m0 \<Longrightarrow> v = []) \<Longrightarrow> v = []"
proof (induction cs arbitrary: m0)
  case Nil
  then show ?case by simp
next
  case (Cons c cs)
  show ?case
  proof (rule Cons.IH [of "AList.update (id_p c) [] m0"])
    show "(k, v) \<in> set (fold (\<lambda>commit. AList.update (id_p commit) []) cs (AList.update (id_p c) [] m0))"
      using Cons.prems(1) by simp
  next
    fix k' v'
    assume "(k', v') \<in> set (AList.update (id_p c) [] m0)"
    from update_set [OF this] Cons.prems(2) show "v' = []" by auto
  qed
qed

lemma initialRanges_keys_fold:
  "fst ` set (fold (\<lambda>commit m. AList.update (id_p commit) [] m) cs m0)
   = id_p ` set cs \<union> fst ` set m0"
  by (induction cs arbitrary: m0) (auto simp: dom_update)

lemma initialRanges_keys: "fst ` set (initialRanges commits) = id_p ` set commits"
  by (simp add: initialRanges_def initialRanges_keys_fold)

lemma initialRanges_map_of: "map_of (initialRanges commits) c = Some fr \<Longrightarrow> fr = []"
proof -
  assume "map_of (initialRanges commits) c = Some fr"
  then have "(c, fr) \<in> set (initialRanges commits)" by (rule map_of_SomeD)
  then show ?thesis unfolding initialRanges_def by (rule initialRanges_values) simp
qed

lemma initialRanges_allAt [simp]: "allAt (initialRanges commits) c = []"
  by (auto simp: allAt_def split: option.splits dest: initialRanges_map_of)

lemma initialRanges_rangesAt [simp]: "rangesAt (initialRanges commits) c p = []"
  using rangesAt_subset_allAt [of "initialRanges commits" c p] by simp

lemma classMap_fold_inner:
  "fold (\<lambda>line m'. m'((h, lineIndex line) \<mapsto> commitId_l line)) ls m key = Some c \<Longrightarrow>
   m key = Some c \<or> (\<exists>l \<in> set ls. commitId_l l = c)"
proof (induction ls arbitrary: m)
  case Nil
  then show ?case by simp
next
  case (Cons l ls)
  from Cons.prems
  have "fold (\<lambda>line m'. m'((h, lineIndex line) \<mapsto> commitId_l line)) ls
          (m((h, lineIndex l) \<mapsto> commitId_l l)) key = Some c"
    by (simp only: fold_simps comp_apply)
  from Cons.IH [OF this] show ?case by (auto split: if_splits)
qed

lemma classMap_fold_outer:
  "fold (\<lambda>hunkResult m.
             fold (\<lambda>line m'. m'((hunkId_c hunkResult, lineIndex line) \<mapsto> commitId_l line))
                  (lines_c hunkResult) m) cls m key = Some c \<Longrightarrow>
   m key = Some c \<or> (\<exists>hr \<in> set cls. \<exists>l \<in> set (lines_c hr). commitId_l l = c)"
proof (induction cls arbitrary: m)
  case Nil
  then show ?case by simp
next
  case (Cons hr cls)
  let ?m = "fold (\<lambda>line m'. m'((hunkId_c hr, lineIndex line) \<mapsto> commitId_l line)) (lines_c hr) m"
  from Cons.prems
  have "fold (\<lambda>hunkResult m.
             fold (\<lambda>line m'. m'((hunkId_c hunkResult, lineIndex line) \<mapsto> commitId_l line))
                  (lines_c hunkResult) m) cls ?m key = Some c"
    by (simp only: fold_simps comp_apply)
  from Cons.IH [OF this] show ?case
  proof
    assume "?m key = Some c"
    from classMap_fold_inner [OF this] show ?thesis by auto
  next
    assume "\<exists>hr \<in> set cls. \<exists>l \<in> set (lines_c hr). commitId_l l = c"
    then show ?thesis by auto
  qed
qed

lemma classMap_ran:
  "buildClassificationMap cls key = Some c \<Longrightarrow>
   \<exists>hr \<in> set cls. \<exists>l \<in> set (lines_c hr). commitId_l l = c"
  unfolding buildClassificationMap_def by (drule classMap_fold_outer) simp

lemma cidOf_in:
  assumes "commits \<noteq> []" "named commits cls"
  shows "cidOf commits (buildClassificationMap cls) hid i \<in> id_p ` set commits"
proof (cases "buildClassificationMap cls (hid, int i)")
  case None
  with assms(1) show ?thesis
    by (cases commits) (auto simp: cidOf_def commitFor_def firstCommitId_def)
next
  case (Some c)
  from classMap_ran [OF Some] assms(2) have "c \<in> id_p ` set commits"
    by (auto simp: named_def)
  with Some assms(1) show ?thesis
    by (cases commits) (auto simp: cidOf_def commitFor_def firstCommitId_def)
qed

lemma extractFiles_total:
  assumes ne: "commits \<noteq> []"
    and keys: "\<And>hid i. cidOf commits classMap hid i \<in> fst ` set m"
  shows "\<exists>m'. foldE (extractFile commits classMap) fs m = Inr m'"
proof -
  let ?P = "\<lambda>x::RangesMap. fst ` set x = fst ` set m"
  have "\<exists>m'. foldE (extractFile commits classMap) fs m = Inr m' \<and> ?P m'"
  proof (rule foldE_total [where P = ?P])
    fix f t
    assume t: "?P t"
    show "\<exists>t'. extractFile commits classMap f t = Inr t' \<and> ?P t'"
      unfolding extractFile_def
    proof (rule foldE_total [where P = ?P, OF t])
      fix h u
      assume u: "?P u"
      have "\<exists>u'. extractHunk commits classMap (filePath f) h u = Inr u'"
        using commitFor_link [OF ne] keys u
        by (intro extractHunk_total [where g = "cidOf commits classMap (id_h h)"]) simp_all
      then obtain u' where e: "extractHunk commits classMap (filePath f) h u = Inr u'" ..
      from extractHunk_keys [where g = "cidOf commits classMap (id_h h)", OF commitFor_link [OF ne] e] u
      have "?P u'" by simp
      with e show "\<exists>u'. extractHunk commits classMap (filePath f) h u = Inr u' \<and> ?P u'" by blast
    qed
  qed simp
  then show ?thesis by blast
qed

lemma mapE_total:
  "(\<And>x. x \<in> set xs \<Longrightarrow> \<exists>y. f x = Inr y) \<Longrightarrow> \<exists>ys. mapE f xs = Inr ys"
proof (induction xs)
  case Nil
  show ?case by simp
next
  case (Cons x xs)
  from Cons.prems [of x] obtain y where "f x = Inr y" by auto
  moreover from Cons.IH Cons.prems obtain ys where "mapE f xs = Inr ys" by auto
  ultimately show ?case by simp
qed

lemma mapE_Inr: "mapE f xs = Inr ys \<Longrightarrow> list_all2 (\<lambda>x y. f x = Inr y) xs ys"
proof (induction xs arbitrary: ys)
  case Nil
  then show ?case by simp
next
  case (Cons x xs)
  from Cons.prems obtain y ys' where "f x = Inr y" "mapE f xs = Inr ys'" "ys = y # ys'"
    by (auto split: sum.splits)
  with Cons.IH show ?case by simp
qed

lemma concat_filter_nonempty:
  "concat (map snd (filter (\<lambda>(p, rs). rs \<noteq> []) fr)) = concat (map snd fr)"
  by (induction fr) auto

lemma toCommitChanges_Inr:
  assumes "toCommitChanges m commit = Inr cc"
  shows "commitId cc = id_p commit" "message cc = message_p commit"
    "description cc = description_p commit"
    "concat (map ranges (fileChanges cc)) = allAt m (id_p commit)"
    "set (rangesAt m (id_p commit) p) \<subseteq> set (rangesFor cc p)"
proof -
  from assms obtain fr where fr: "map_of m (id_p commit) = Some fr"
    and cc: "cc = \<lparr>commitId = id_p commit, message = message_p commit,
               description = description_p commit,
               fileChanges = map (\<lambda>(p, rs). \<lparr>filePath_f = p, ranges = rs\<rparr>)
                     (filter (\<lambda>(p, rs). rs \<noteq> []) fr)\<rparr>"
    by (auto simp: toCommitChanges_def split: option.splits)
  show "commitId cc = id_p commit" "message cc = message_p commit"
    "description cc = description_p commit" by (simp_all add: cc)
  have "map ranges (fileChanges cc) = map snd (filter (\<lambda>(p, rs). rs \<noteq> []) fr)"
    by (simp add: cc comp_def case_prod_beta)
  then show "concat (map ranges (fileChanges cc)) = allAt m (id_p commit)"
    by (simp add: concat_filter_nonempty allAt_def fr)
  show "set (rangesAt m (id_p commit) p) \<subseteq> set (rangesFor cc p)"
  proof (cases "map_of fr p")
    case None
    with fr show ?thesis by (simp add: rangesAt_def)
  next
    case (Some rs)
    then have mem: "(p, rs) \<in> set fr" by (rule map_of_SomeD)
    show ?thesis
    proof (cases "rs = []")
      case True
      with fr Some show ?thesis by (simp add: rangesAt_def)
    next
      case False
      with mem have "\<lparr>filePath_f = p, ranges = rs\<rparr> \<in> set (fileChanges cc)"
        by (force simp: cc)
      then have "set rs \<subseteq> set (rangesFor cc p)" by (force simp: rangesFor_def)
      with fr Some show ?thesis by (simp add: rangesAt_def)
    qed
  qed
qed

lemma extractChanges_Inr:
  assumes "extractChanges files commits cls = Inr changes"
  obtains m where
    "foldE (extractFile commits (buildClassificationMap cls)) files (initialRanges commits) = Inr m"
    "mapE (toCommitChanges m) commits = Inr changes"
  using assms by (auto simp: extractChanges_def split: sum.splits)

lemma extractChanges_total:
  assumes ne: "commits \<noteq> []" and nm: "named commits cls"
  shows "\<exists>changes. extractChanges files commits cls = Inr changes"
proof -
  let ?cm = "buildClassificationMap cls"
  have "\<exists>m. foldE (extractFile commits ?cm) files (initialRanges commits) = Inr m"
    using ne by (rule extractFiles_total) (simp add: initialRanges_keys cidOf_in [OF ne nm])
  then obtain m where m: "foldE (extractFile commits ?cm) files (initialRanges commits) = Inr m" ..
  from extractFiles_keys [OF ne m] have k: "fst ` set m = id_p ` set commits"
    by (simp add: initialRanges_keys)
  have "\<exists>ys. mapE (toCommitChanges m) commits = Inr ys"
  proof (rule mapE_total)
    fix c
    assume "c \<in> set commits"
    with k have "id_p c \<in> fst ` set m" by auto
    then obtain fr where "map_of m (id_p c) = Some fr"
      by (metis domD dom_map_of_conv_image_fst)
    then show "\<exists>y. toCommitChanges m c = Inr y" by (simp add: toCommitChanges_def)
  qed
  then show ?thesis by (simp add: extractChanges_def m)
qed

section \<open>Claims about when the partitioning returns\<close>

text \<open>
  C9. \<^const>\<open>extractChanges\<close> returns whenever the plan is nonempty and every entry of the
  classification names a group of the plan (\<^const>\<open>named\<close>). Outside this precondition
  it can throw: on an empty plan with a changed line that has no entry, and on an entry
  that names a group absent from the plan.
\<close>

theorem C9_extractChanges_total_on_named_plan:
  "(commits \<noteq> [] \<and> named commits classifications
      \<longrightarrow> (\<exists>changes. extractChanges files commits classifications = Inr changes))
   \<and> extractChanges [exFile] [] [] = Inl TypeError
   \<and> extractChanges [exFile] exPlan exClassAbsent = Inl TypeError"
proof (intro conjI impI)
  assume "commits \<noteq> [] \<and> named commits classifications"
  then show "\<exists>changes. extractChanges files commits classifications = Inr changes"
    by (auto intro: extractChanges_total)
next
  show "extractChanges [exFile] [] [] = Inl TypeError" by code_simp
next
  show "extractChanges [exFile] exPlan exClassAbsent = Inl TypeError" by code_simp
qed

theorem C9_witness:
  "exPlan \<noteq> [] \<and> named exPlan exClass
   \<and> (\<exists>changes. extractChanges [exFile] exPlan exClass = Inr changes)"
proof -
  have h: "exPlan \<noteq> [] \<and> named exPlan exClass" by code_simp
  from C9_extractChanges_total_on_named_plan [of exPlan exClass "[exFile]"] h
  have "\<exists>changes. extractChanges [exFile] exPlan exClass = Inr changes" by blast
  with h show ?thesis by blast
qed

lemma itemsOf_add_mset: "itemsOf (add_mset r X) = mset (expand r) + itemsOf X"
  by (simp add: itemsOf_def)

lemma in_itemsOf: "x \<in># itemsOf X \<longleftrightarrow> (\<exists>r \<in># X. x \<in> set (expand r))"
  by (induction X) (auto simp: itemsOf_add_mset)

lemma in_lineItems:
  "x \<in> set (lineItems sel hid ls n) \<longleftrightarrow> (\<exists>i < n. isChange (ls ! i) \<and> sel i \<and> x = itemAt hid ls i)"
  by (auto simp: lineItems_def)

lemma in_diffItems:
  "x \<in> set (diffItems commits cm hit files) \<longleftrightarrow>
   (\<exists>f \<in> set files. \<exists>h \<in> set (hunks f). \<exists>i < length (split_nl (content h)).
      isChange (split_nl (content h) ! i) \<and> hit (filePath f) (cidOf commits cm (id_h h) i)
      \<and> x = itemAt (id_h h) (split_nl (content h)) i)"
  by (auto simp: diffItems_def fileItems_def hunkItems_def in_lineItems)

lemma runIn_end: "runIn g hid ls c r \<Longrightarrow> endLineIdx r = startLineIdx r + int (length (lines_r r)) - 1"
  by (simp add: runIn_def)

lemma in_expand_covers:
  assumes "(hid, int i, ty, txt) \<in> set (expand r)"
    and "endLineIdx r = startLineIdx r + int (length (lines_r r)) - 1"
  shows "covers r hid i \<and> type_r r = ty"
  using assms by (auto simp: expand_def covers_def)

lemma extractFiles_group_runs:
  assumes ne: "commits \<noteq> []"
    and ex: "foldE (extractFile commits cm) files (initialRanges commits) = Inr m"
    and r: "r \<in> set (allAt m c)"
  shows "isRunOf commits cm files c r"
  using ne ex _ r by (rule extractFiles_ranges) simp

lemma extractFiles_path_items:
  assumes ne: "commits \<noteq> []"
    and ex: "foldE (extractFile commits cm) files (initialRanges commits) = Inr m"
  shows "itemsOf (mset (rangesAt m c p)) = mset (diffItems commits cm (hitPath c p) files)"
  using extractFiles_items [OF flushLaw_path ne ex, of c p] by simp

lemma extractFiles_group_items:
  assumes ne: "commits \<noteq> []"
    and ex: "foldE (extractFile commits cm) files (initialRanges commits) = Inr m"
  shows "itemsOf (mset (allAt m c)) = mset (diffItems commits cm (hitGroup c) files)"
  using extractFiles_items [OF flushLaw_group ne ex, of c] by simp

lemma covered_in_group:
  assumes ne: "commits \<noteq> []"
    and ex: "foldE (extractFile commits cm) files (initialRanges commits) = Inr m"
    and f: "f \<in> set files" and h: "h \<in> set (hunks f)"
    and i: "i < length (split_nl (content h))" and ch: "isChange (split_nl (content h) ! i)"
  shows "\<exists>r \<in> set (rangesAt m (cidOf commits cm (id_h h) i) (filePath f)).
           covers r (id_h h) i \<and> type_r r = lineType (split_nl (content h) ! i)"
proof -
  let ?c = "cidOf commits cm (id_h h) i" and ?p = "filePath f" and ?ls = "split_nl (content h)"
  have "itemAt (id_h h) ?ls i \<in> set (diffItems commits cm (hitPath ?c ?p) files)"
    unfolding in_diffItems using f h i ch by (auto simp: hitPath_def)
  then have "itemAt (id_h h) ?ls i \<in># itemsOf (mset (rangesAt m ?c ?p))"
    by (simp add: extractFiles_path_items [OF ne ex])
  then obtain r where r: "r \<in> set (rangesAt m ?c ?p)" and x: "itemAt (id_h h) ?ls i \<in> set (expand r)"
    unfolding in_itemsOf by auto
  from r rangesAt_subset_allAt have "r \<in> set (allAt m ?c)" by blast
  from extractFiles_group_runs [OF ne ex this]
  have e: "endLineIdx r = startLineIdx r + int (length (lines_r r)) - 1"
    by (auto simp: isRunOf_def dest: runIn_end)
  from in_expand_covers [OF x [unfolded itemAt_def] e] r show ?thesis by blast
qed

lemma cidOf_unclassified:
  "cm (hid, int i) = None \<Longrightarrow> cidOf (c0 # cs) cm hid i = id_p c0"
  by (simp add: cidOf_def commitFor_def firstCommitId_def)

lemma first_group:
  assumes "mapE (toCommitChanges m) (c0 # cs) = Inr changes"
  shows "toCommitChanges m c0 = Inr (hd changes)"
  using assms by (auto split: sum.splits)

lemma allRanges_Cons: "allRanges (cc # ccs) = groupRanges cc @ allRanges ccs"
  by (simp add: allRanges_def groupRanges_def)

lemma mapE_Cons_Inr:
  assumes "mapE f (x # xs) = Inr ys"
  obtains y ys' where "f x = Inr y" "mapE f xs = Inr ys'" "ys = y # ys'"
  using assms by (auto split: sum.splits)

lemma allRanges_extract:
  "mapE (toCommitChanges m) commits = Inr changes \<Longrightarrow>
   allRanges changes = concat (map (\<lambda>commit. allAt m (id_p commit)) commits)"
proof (induction commits arbitrary: changes)
  case Nil
  then show ?case by (simp add: allRanges_def)
next
  case (Cons c cs)
  from Cons.prems obtain y ys where y: "toCommitChanges m c = Inr y"
    and ys: "mapE (toCommitChanges m) cs = Inr ys" and e: "changes = y # ys"
    by (rule mapE_Cons_Inr)
  from toCommitChanges_Inr(4) [OF y] have "groupRanges y = allAt m (id_p c)"
    by (simp add: groupRanges_def)
  with Cons.IH [OF ys] e show ?case by (simp add: allRanges_Cons)
qed

lemma changes_member:
  "mapE (toCommitChanges m) commits = Inr changes \<Longrightarrow> cc \<in> set changes \<Longrightarrow>
   \<exists>commit \<in> set commits. toCommitChanges m commit = Inr cc"
proof (induction commits arbitrary: changes)
  case Nil
  then show ?case by simp
next
  case (Cons c cs)
  from Cons.prems(1) obtain y ys where y: "toCommitChanges m c = Inr y"
    and ys: "mapE (toCommitChanges m) cs = Inr ys" and e: "changes = y # ys"
    by (rule mapE_Cons_Inr)
  from Cons.prems(2) e have "cc = y \<or> cc \<in> set ys" by simp
  then show ?case
  proof
    assume "cc = y"
    with y show ?thesis by simp
  next
    assume "cc \<in> set ys"
    from Cons.IH [OF ys this] show ?thesis by auto
  qed
qed

lemma distinct_map_eq:
  "distinct (map f xs) \<Longrightarrow> x \<in> set xs \<Longrightarrow> y \<in> set xs \<Longrightarrow> f x = f y \<Longrightarrow> x = y"
  by (meson distinct_map inj_onD)

lemma same_hunk:
  assumes "distinctHunkIds files" "f \<in> set files" "h \<in> set (hunks f)"
    and "f' \<in> set files" "h' \<in> set (hunks f')" "id_h h = id_h h'"
  shows "h = h'"
proof -
  from assms(2,3) have "h \<in> set (concat (map hunks files))" by auto
  moreover from assms(4,5) have "h' \<in> set (concat (map hunks files))" by auto
  ultimately show ?thesis using assms(1,6) unfolding distinctHunkIds_def
    by (metis distinct_map_eq)
qed


section \<open>Claims about the ranges of the partitioning\<close>

lemma filter_mset_group_split:
  "distinct ids \<Longrightarrow>
   sum_list (map (\<lambda>c. filter_mset (\<lambda>i. Q i \<and> g i = c) M) ids)
   = filter_mset (\<lambda>i. Q i \<and> g i \<in> set ids) M"
proof (induction ids)
  case Nil
  show ?case by simp
next
  case (Cons c cs)
  then have c: "c \<notin> set cs" and d: "distinct cs" by simp_all
  have "filter_mset (\<lambda>i. Q i \<and> g i = c) M + filter_mset (\<lambda>i. Q i \<and> g i \<in> set cs) M
        = filter_mset (\<lambda>i. Q i \<and> g i \<in> set (c # cs)) M"
    using c by (intro multiset_eqI) auto
  with Cons.IH [OF d] show ?case by simp
qed

lemma image_mset_sum_list:
  "image_mset f (sum_list Ms) = sum_list (map (image_mset f) Ms)"
  by (induction Ms) simp_all

lemma mset_lineItems:
  "mset (lineItems sel hid ls n)
   = image_mset (itemAt hid ls) (filter_mset (\<lambda>i. isChange (ls ! i) \<and> sel i) (mset [0..<n]))"
  by (simp add: lineItems_def)

lemma lineItems_partition:
  assumes "distinct ids" and "\<And>i. g i \<in> set ids"
  shows "sum_list (map (\<lambda>c. mset (lineItems (\<lambda>i. g i = c) hid ls n)) ids)
         = mset (lineItems (\<lambda>i. True) hid ls n)"
proof -
  have "sum_list (map (\<lambda>c. mset (lineItems (\<lambda>i. g i = c) hid ls n)) ids)
        = image_mset (itemAt hid ls)
            (sum_list (map (\<lambda>c. filter_mset (\<lambda>i. isChange (ls ! i) \<and> g i = c) (mset [0..<n])) ids))"
    by (simp add: mset_lineItems image_mset_sum_list comp_def)
  also have "\<dots> = image_mset (itemAt hid ls)
            (filter_mset (\<lambda>i. isChange (ls ! i) \<and> g i \<in> set ids) (mset [0..<n]))"
    by (simp only: filter_mset_group_split [OF assms(1)])
  also have "\<dots> = mset (lineItems (\<lambda>i. True) hid ls n)"
    by (simp add: mset_lineItems assms(2))
  finally show ?thesis .
qed

lemma sum_list_mset_concat:
  "sum_list (map (\<lambda>c. mset (concat (map (F c) xs))) ids)
   = sum_list (map (\<lambda>x. sum_list (map (\<lambda>c. mset (F c x)) ids)) xs)"
proof (induction xs)
  case Nil
  show ?case by (induction ids) simp_all
next
  case (Cons x xs)
  have "sum_list (map (\<lambda>c. mset (concat (map (F c) (x # xs)))) ids)
        = sum_list (map (\<lambda>c. mset (F c x) + mset (concat (map (F c) xs))) ids)"
    by simp
  also have "\<dots> = sum_list (map (\<lambda>c. mset (F c x)) ids)
                  + sum_list (map (\<lambda>c. mset (concat (map (F c) xs))) ids)"
    by (rule sum_list_addf)
  finally show ?case using Cons.IH by simp
qed

lemma mset_concat_sum: "mset (concat (map F xs)) = sum_list (map (\<lambda>x. mset (F x)) xs)"
  by (induction xs) simp_all

lemma hunkItems_partition:
  assumes "distinct ids" and "\<And>hid i. cidOf commits cm hid i \<in> set ids"
  shows "sum_list (map (\<lambda>c. mset (hunkItems commits cm (hitGroup c path) h)) ids)
         = mset (hunkItems commits cm (allHit path) h)"
proof -
  have "hunkItems commits cm (hitGroup c path) h
        = lineItems (\<lambda>i. cidOf commits cm (id_h h) i = c) (id_h h) (split_nl (content h))
            (length (split_nl (content h)))" for c
    by (simp add: hunkItems_def hitGroup_def)
  moreover have "hunkItems commits cm (allHit path) h
        = lineItems (\<lambda>i. True) (id_h h) (split_nl (content h)) (length (split_nl (content h)))"
    by (simp add: hunkItems_def allHit_def)
  ultimately show ?thesis
    using lineItems_partition [OF assms(1), of "cidOf commits cm (id_h h)"] assms(2) by simp
qed

lemma diffItems_partition:
  assumes "distinct ids" and "\<And>hid i. cidOf commits cm hid i \<in> set ids"
  shows "sum_list (map (\<lambda>c. mset (diffItems commits cm (hitGroup c) files)) ids)
         = mset (diffItems commits cm allHit files)"
proof -
  have fl: "sum_list (map (\<lambda>c. mset (fileItems commits cm (hitGroup c) f)) ids)
              = mset (fileItems commits cm allHit f)" for f
    unfolding fileItems_def sum_list_mset_concat
    by (simp add: hunkItems_partition [OF assms] mset_concat_sum)
  show ?thesis
    unfolding diffItems_def sum_list_mset_concat
    by (simp add: fl mset_concat_sum)
qed

lemma itemAt_inj: "itemAt hid ls i = itemAt hid ls j \<Longrightarrow> i = j"
  by (simp add: itemAt_def)

lemma distinct_lineItems: "distinct (lineItems sel hid ls n)"
  unfolding lineItems_def by (rule distinct_map [THEN iffD2]) (auto intro: inj_onI dest: itemAt_inj)

lemma fst_lineItems: "x \<in> set (lineItems sel hid ls n) \<Longrightarrow> fst x = hid"
  by (auto simp: lineItems_def itemAt_def)

lemma fst_hunkItems: "x \<in> set (hunkItems commits cm sel h) \<Longrightarrow> fst x = id_h h"
  unfolding hunkItems_def by (rule fst_lineItems)

lemma distinct_hunks_items:
  "distinct (map id_h hs) \<Longrightarrow> distinct (concat (map (hunkItems commits cm sel) hs))"
proof (induction hs)
  case Nil
  show ?case by simp
next
  case (Cons h hs)
  have "set (hunkItems commits cm sel h) \<inter> set (concat (map (hunkItems commits cm sel) hs)) = {}"
  proof (rule ccontr)
    assume "\<not> ?thesis"
    then obtain x h' where x: "x \<in> set (hunkItems commits cm sel h)"
      and h': "h' \<in> set hs" "x \<in> set (hunkItems commits cm sel h')" by auto
    from fst_hunkItems [OF x] fst_hunkItems [OF h'(2)] have "id_h h = id_h h'" by simp
    with h'(1) Cons.prems show False by auto
  qed
  with Cons show ?case by (simp add: hunkItems_def distinct_lineItems)
qed

lemma diffItems_allHit:
  "diffItems commits cm allHit files
   = concat (map (hunkItems commits cm (\<lambda>c. True)) (concat (map hunks files)))"
proof -
  have "allHit p = (\<lambda>c. True)" for p by (simp add: allHit_def fun_eq_iff)
  then show ?thesis
    by (induction files) (simp_all add: diffItems_def fileItems_def)
qed

lemma distinct_diffItems:
  "distinctHunkIds files \<Longrightarrow> distinct (diffItems commits cm allHit files)"
  unfolding diffItems_allHit distinctHunkIds_def by (rule distinct_hunks_items)

lemma count_map_upt:
  "count (mset (map f [0..<n])) x = length (filter (\<lambda>k. f k = x) [0..<n])"
  by (induction n) auto

lemma filter_eq_upt: "filter (\<lambda>k. k = j) [0..<n] = (if j < n then [j] else [])"
  by (induction n) auto

lemma count_expand_run:
  assumes run: "runIn g hid ls c r"
  shows "count (mset (expand r)) (itemAt hid ls i) = (if covers r hid i then 1 else 0)"
proof -
  let ?n = "length (lines_r r)" and ?s = "nat (startLineIdx r)"
  from run have hid: "hunkId r = hid" and s: "0 \<le> startLineIdx r"
    and e: "endLineIdx r = startLineIdx r + int ?n - 1"
    and all: "\<And>k. k < ?n \<Longrightarrow> lineType (ls ! (?s + k)) = type_r r
                  \<and> slice1 (ls ! (?s + k)) = lines_r r ! k"
    by (auto simp: runIn_def sameRun_def)
  have eq: "((hunkId r, startLineIdx r + int k, type_r r, lines_r r ! k) = itemAt hid ls i)
            = (k = i - ?s \<and> ?s \<le> i)" if k: "k < ?n" for k
  proof
    assume "(hunkId r, startLineIdx r + int k, type_r r, lines_r r ! k) = itemAt hid ls i"
    then have "startLineIdx r + int k = int i" by (simp add: itemAt_def)
    with s show "k = i - ?s \<and> ?s \<le> i" by auto
  next
    assume a: "k = i - ?s \<and> ?s \<le> i"
    then have i: "i = ?s + k" by simp
    from s have "startLineIdx r + int k = int (?s + k)" by simp
    with all [OF k] hid show "(hunkId r, startLineIdx r + int k, type_r r, lines_r r ! k) = itemAt hid ls i"
      unfolding i by (simp add: itemAt_def)
  qed
  have "count (mset (expand r)) (itemAt hid ls i)
        = length (filter (\<lambda>k. (hunkId r, startLineIdx r + int k, type_r r, lines_r r ! k)
                               = itemAt hid ls i) [0..<?n])"
    unfolding expand_def by (rule count_map_upt)
  also have "\<dots> = length (filter (\<lambda>k. k = i - ?s \<and> ?s \<le> i) [0..<?n])"
    by (rule arg_cong [where f = length], rule filter_cong) (auto simp: eq)
  also have "\<dots> = (if ?s \<le> i \<and> i - ?s < ?n then 1 else 0)"
    by (cases "?s \<le> i") (simp_all add: filter_eq_upt)
  also have "\<dots> = (if covers r hid i then 1 else 0)"
    using s e hid by (auto simp: covers_def)
  finally show ?thesis .
qed

lemma count_expand_other:
  assumes "hunkId r \<noteq> hid"
  shows "count (mset (expand r)) (itemAt hid ls i) = (if covers r hid i then 1 else 0)"
proof -
  from assms have "itemAt hid ls i \<notin> set (expand r)" by (auto simp: expand_def itemAt_def)
  then have "count (mset (expand r)) (itemAt hid ls i) = 0" by (simp add: count_eq_zero_iff)
  with assms show ?thesis by (simp add: covers_def)
qed

lemma count_itemsOf_list:
  assumes "\<And>r. r \<in> set L \<Longrightarrow> count (mset (expand r)) x = (if P r then 1 else 0)"
  shows "count (itemsOf (mset L)) x = length (filter P L)"
  using assms by (induction L) (simp_all add: itemsOf_add_mset)

lemma itemsOf_concat:
  "itemsOf (mset (concat (map F xs))) = sum_list (map (\<lambda>x. itemsOf (mset (F x))) xs)"
  by (induction xs) simp_all

lemma size_itemsOf_list: "size (itemsOf (mset L)) = sum_list (map (\<lambda>r. length (lines_r r)) L)"
  by (induction L) (simp_all add: itemsOf_add_mset expand_def)

lemma runIn_inOneHunk:
  assumes "f \<in> set files" "h \<in> set (hunks f)"
    and run: "runIn g (id_h h) (split_nl (content h)) c r"
  shows "inOneHunk files r"
proof -
  let ?ls = "split_nl (content h)" and ?n = "length (lines_r r)" and ?s = "nat (startLineIdx r)"
  from run have hid: "hunkId r = id_h h" and s: "0 \<le> startLineIdx r"
    and e: "endLineIdx r = startLineIdx r + int ?n - 1"
    and le: "?s + ?n \<le> length ?ls"
    unfolding runIn_def by blast+
  from run have n: "lines_r r \<noteq> []" unfolding runIn_def by blast
  from run have all: "isChange (?ls ! (?s + k)) \<and> lineType (?ls ! (?s + k)) = type_r r"
    if "k < ?n" for k
    using that by (simp add: runIn_def sameRun_def)
  from n have n1: "1 \<le> int ?n" by (cases "lines_r r") auto
  have "isChange (?ls ! i) \<and> lineType (?ls ! i) = type_r r"
    if "startLineIdx r \<le> int i \<and> int i \<le> endLineIdx r" for i
  proof -
    from that s e have "?s \<le> i" "i - ?s < ?n" by auto
    with all [of "i - ?s"] show ?thesis by simp
  qed
  moreover from e n1 have "startLineIdx r \<le> endLineIdx r" by arith
  moreover from s e le have "endLineIdx r < int (length ?ls)" by auto
  ultimately show ?thesis unfolding inOneHunk_def using assms(1,2) hid s by blast
qed

lemma extract_all_items:
  assumes ne: "commits \<noteq> []" and nm: "named commits cls"
    and dp: "distinct (map id_p commits)"
    and m: "foldE (extractFile commits (buildClassificationMap cls)) files (initialRanges commits) = Inr m"
    and out: "mapE (toCommitChanges m) commits = Inr changes"
  shows "itemsOf (mset (allRanges changes))
         = mset (diffItems commits (buildClassificationMap cls) allHit files)"
proof -
  let ?cm = "buildClassificationMap cls"
  have "itemsOf (mset (allRanges changes))
        = sum_list (map (\<lambda>commit. itemsOf (mset (allAt m (id_p commit)))) commits)"
    unfolding allRanges_extract [OF out] by (rule itemsOf_concat)
  also have "\<dots> = sum_list (map (\<lambda>c. mset (diffItems commits ?cm (hitGroup c) files)) (map id_p commits))"
    by (simp add: extractFiles_group_items [OF ne m] comp_def)
  also have "\<dots> = mset (diffItems commits ?cm allHit files)"
    using dp by (rule diffItems_partition) (use cidOf_in [OF ne nm] in simp)
  finally show ?thesis .
qed

lemma extract_all_runs:
  assumes ne: "commits \<noteq> []"
    and m: "foldE (extractFile commits cm) files (initialRanges commits) = Inr m"
    and out: "mapE (toCommitChanges m) commits = Inr changes"
    and r: "r \<in> set (allRanges changes)"
  shows "\<exists>c. isRunOf commits cm files c r"
proof -
  from r have "\<exists>commit::CommitPlan. r \<in> set (allAt m (id_p commit))"
    unfolding allRanges_extract [OF out] by auto
  then obtain commit :: CommitPlan where "r \<in> set (allAt m (id_p commit))" ..
  from extractFiles_group_runs [OF ne m this] show ?thesis ..
qed

lemma extract_exactly_one:
  assumes dh: "distinctHunkIds files" and dp: "distinct (map id_p commits)"
    and ne: "commits \<noteq> []" and nm: "named commits cls"
    and m: "foldE (extractFile commits (buildClassificationMap cls)) files (initialRanges commits) = Inr m"
    and out: "mapE (toCommitChanges m) commits = Inr changes"
    and f: "f \<in> set files" and h: "h \<in> set (hunks f)"
    and i: "i < length (split_nl (content h))" and ch: "isChange (split_nl (content h) ! i)"
  shows "length (filter (\<lambda>r. covers r (id_h h) i) (allRanges changes)) = 1"
proof -
  let ?cm = "buildClassificationMap cls" and ?ls = "split_nl (content h)"
  let ?x = "itemAt (id_h h) ?ls i"
  have "?x \<in> set (diffItems commits ?cm allHit files)"
    unfolding in_diffItems using f h i ch by (auto simp: allHit_def)
  moreover from distinct_diffItems [OF dh, of commits ?cm]
  have "count (mset (diffItems commits ?cm allHit files)) ?x
        = (if ?x \<in> set (diffItems commits ?cm allHit files) then 1 else 0)"
    unfolding distinct_count_atmost_1 by blast
  ultimately have "count (mset (diffItems commits ?cm allHit files)) ?x = 1"
    by simp
  then have one: "count (itemsOf (mset (allRanges changes))) ?x = 1"
    by (simp add: extract_all_items [OF ne nm dp m out])
  have "count (mset (expand r)) ?x = (if covers r (id_h h) i then 1 else 0)"
    if r: "r \<in> set (allRanges changes)" for r
  proof (cases "hunkId r = id_h h")
    case False
    then show ?thesis by (rule count_expand_other)
  next
    case True
    from extract_all_runs [OF ne m out r] obtain c f' h' where
      f': "f' \<in> set files" "h' \<in> set (hunks f')"
      and run: "runIn (cidOf commits ?cm (id_h h')) (id_h h') (split_nl (content h')) c r"
      unfolding isRunOf_def by blast
    from run True have "id_h h = id_h h'" by (simp add: runIn_def)
    from same_hunk [OF dh f h f' this] have "h = h'" .
    with count_expand_run [OF run, of i] show ?thesis by simp
  qed
  from count_itemsOf_list [of "allRanges changes" ?x "\<lambda>r. covers r (id_h h) i", OF this] one
  show ?thesis by simp
qed

text \<open>
  C3, as amended. When the hunk ids of the diff are pairwise distinct, the ids of the plan
  are pairwise distinct, the plan is nonempty and every entry of the classification names
  a group of the plan, the partitioning returns, every changed line (hunk id, line index)
  of the diff is covered by exactly one range of the result, counted over all groups and
  files, and every range of the result lies inside one hunk of the diff, all the lines
  it spans being changed lines of the type of the range (so none is a context line).
\<close>

theorem C3_each_changed_line_in_exactly_one_range:
  assumes "distinctHunkIds files" and "distinct (map id_p commits)"
    and "commits \<noteq> []" and "named commits classifications"
  shows "\<exists>changes. extractChanges files commits classifications = Inr changes
           \<and> (\<forall>f \<in> set files. \<forall>h \<in> set (hunks f). \<forall>i < length (split_nl (content h)).
                 isChange (split_nl (content h) ! i) \<longrightarrow> coverCount changes (id_h h) i = 1)
           \<and> (\<forall>r \<in> set (allRanges changes). inOneHunk files r)"
proof -
  let ?cm = "buildClassificationMap classifications"
  from extractChanges_total [OF assms(3,4)] obtain changes where
    c: "extractChanges files commits classifications = Inr changes" ..
  from extractChanges_Inr [OF c] obtain m where
    m: "foldE (extractFile commits ?cm) files (initialRanges commits) = Inr m"
    and out: "mapE (toCommitChanges m) commits = Inr changes" by blast
  have one: "coverCount changes (id_h h) i = 1"
    if "f \<in> set files" "h \<in> set (hunks f)" "i < length (split_nl (content h))"
      "isChange (split_nl (content h) ! i)" for f h i
    unfolding coverCount_def
    using assms(1,2,3,4) m out that by (rule extract_exactly_one)
  have inside: "inOneHunk files r" if r: "r \<in> set (allRanges changes)" for r
  proof -
    from extract_all_runs [OF assms(3) m out r] obtain c f h where
      "f \<in> set files" "h \<in> set (hunks f)"
      "runIn (cidOf commits ?cm (id_h h)) (id_h h) (split_nl (content h)) c r"
      unfolding isRunOf_def by blast
    then show ?thesis by (rule runIn_inOneHunk)
  qed
  from c one inside show ?thesis by blast
qed

theorem C3_witness:
  "distinctHunkIds [exFile] \<and> distinct (map id_p exPlan) \<and> exPlan \<noteq> []
   \<and> named exPlan exClass
   \<and> extractChanges [exFile] exPlan exClass = Inr exChanges
   \<and> coverCount exChanges (id_h exHunk) 1 = 1
   \<and> inOneHunk [exFile] (hd (allRanges exChanges))"
proof -
  have h1: "distinctHunkIds [exFile]" by code_simp
  have h2: "distinct (map id_p exPlan)" by code_simp
  have h3: "exPlan \<noteq> []" by code_simp
  have h4: "named exPlan exClass" by code_simp
  have e: "extractChanges [exFile] exPlan exClass = Inr exChanges" by code_simp
  have f: "exFile \<in> set [exFile]" by simp
  have h: "exHunk \<in> set (hunks exFile)" by code_simp
  have i: "1 < length (split_nl (content exHunk))" by code_simp
  have ch: "isChange (split_nl (content exHunk) ! 1)" by code_simp
  have r: "hd (allRanges exChanges) \<in> set (allRanges exChanges)" by code_simp
  from C3_each_changed_line_in_exactly_one_range [OF h1 h2 h3 h4] e
  have a: "\<forall>f \<in> set [exFile]. \<forall>h \<in> set (hunks f). \<forall>i < length (split_nl (content h)).
             isChange (split_nl (content h) ! i) \<longrightarrow> coverCount exChanges (id_h h) i = 1"
    and b: "\<forall>r \<in> set (allRanges exChanges). inOneHunk [exFile] r"
    by simp_all
  from a f h i ch have "coverCount exChanges (id_h exHunk) 1 = 1" by blast
  moreover from b r have "inOneHunk [exFile] (hd (allRanges exChanges))" by blast
  ultimately show ?thesis using h1 h2 h3 h4 e by blast
qed

theorem C3_counterexample:
  "exDupPlan \<noteq> [] \<and> named exDupPlan exClass
   \<and> isChange (split_nl (content exHunk) ! 1)
   \<and> (case extractChanges [exFile] exDupPlan exClass of
        Inl e \<Rightarrow> False
      | Inr changes \<Rightarrow> coverCount changes (id_h exHunk) 1 = 2)"
  by code_simp

section \<open>Validation\<close>

lemma fold_count_if:
  "fold (\<lambda>line n. if P line then Suc n else n) ls n = n + length (filter P ls)"
  by (induction ls arbitrary: n) auto

lemma fold_nested: "fold (\<lambda>x s. fold c (g x) s) xs = fold c (concat (map g xs))"
  by (induction xs) (auto simp: fun_eq_iff)

lemma concat_map_flat:
  "concat (map (\<lambda>x. concat (map g (f x))) xs) = concat (map g (concat (map f xs)))"
  by (induction xs) simp_all

lemma totalChangedLines_count: "totalChangedLines files = changedLines files"
proof -
  let ?c = "\<lambda>line n. if isChange line then Suc n else n"
  have "totalChangedLines files
        = fold (\<lambda>file n. fold (\<lambda>hunk n. fold ?c (split_nl (content hunk)) n) (hunks file) n) files 0"
    by (simp add: totalChangedLines_def isChange_def)
  also have "\<dots> = fold (\<lambda>file n. fold ?c (concat (map (\<lambda>h. split_nl (content h)) (hunks file))) n) files 0"
    by (simp only: fold_nested)
  also have "\<dots> = fold ?c (concat (map (\<lambda>file. concat (map (\<lambda>h. split_nl (content h)) (hunks file))) files)) 0"
    by (simp only: fold_nested)
  also have "\<dots> = changedLines files"
    by (simp add: fold_count_if changedLines_def concat_map_flat)
  finally show ?thesis .
qed

lemma checkRanges_tagged:
  "checkRanges cs
   = fold checkTagged (taggedRanges cs) \<lparr>errors_v = [], seenRanges = {}, extractedChanges = 0\<rparr>"
proof -
  have inner: "fold (\<lambda>fileChange st. fold (checkRange c) (ranges fileChange) st) fcs
               = fold checkTagged (map (Pair c) (concat (map ranges fcs)))" for c fcs
    by (simp add: fold_nested fold_map comp_def checkTagged_def)
  have "checkRanges cs
        = fold (\<lambda>commit st. fold checkTagged
                   (map (Pair (commitId commit)) (concat (map ranges (fileChanges commit)))) st)
            cs \<lparr>errors_v = [], seenRanges = {}, extractedChanges = 0\<rparr>"
    unfolding checkRanges_def by (simp only: inner)
  then show ?thesis by (simp only: fold_nested taggedRanges_def)
qed

lemma seen_key_span: "rangeKey r \<in> rangeKey ` set seen \<longleftrightarrow> spanOf r \<in> spanOf ` set seen"
  by (auto simp: image_iff rangeKey_inj)

lemma fold_checkTagged:
  "seenRanges st = rangeKey ` set seen \<Longrightarrow>
   errors_v (fold checkTagged xs st) = errors_v st @ dupErrors seen xs
   \<and> extractedChanges (fold checkTagged xs st)
       = extractedChanges st + sum_list (map (\<lambda>r. length (lines_r r)) (map snd xs))"
proof (induction xs arbitrary: st seen)
  case Nil
  show ?case by simp
next
  case (Cons x xs)
  obtain c r where x: "x = (c, r)" by (cases x)
  let ?st = "checkRange c r st"
  from Cons.prems have s: "seenRanges ?st = rangeKey ` set (r # seen)"
    by (simp add: checkRange_def)
  from Cons.prems have e: "errors_v ?st = errors_v st
      @ (if spanOf r \<in> spanOf ` set seen then [duplicateError (rangeKey r) c] else [])"
    by (simp add: checkRange_def seen_key_span)
  have n: "extractedChanges ?st = extractedChanges st + length (lines_r r)"
    by (simp add: checkRange_def)
  from Cons.IH [OF s] e n show ?case by (simp add: x checkTagged_def)
qed

lemma snd_taggedRanges: "map snd (taggedRanges cs) = allRanges cs"
  by (induction cs) (simp_all add: taggedRanges_def allRanges_def comp_def)

lemma dupErrors_empty:
  "dupErrors seen xs = [] \<longleftrightarrow>
     distinct (map spanOf (map snd xs)) \<and> spanOf ` set (map snd xs) \<inter> spanOf ` set seen = {}"
proof (induction xs arbitrary: seen)
  case Nil
  show ?case by simp
next
  case (Cons x xs)
  obtain c r where x: "x = (c, r)" by (cases x)
  show ?case unfolding x by (simp add: Cons.IH) blast
qed

lemma in_dupErrors:
  "e \<in> set (dupErrors seen xs) \<Longrightarrow> \<exists>(c, r) \<in> set xs. e = duplicateError (rangeKey r) c"
proof (induction xs arbitrary: seen)
  case Nil
  then show ?case by simp
next
  case (Cons x xs)
  obtain c r where x: "x = (c, r)" by (cases x)
  from Cons.prems have "e = duplicateError (rangeKey r) c \<or> e \<in> set (dupErrors (r # seen) xs)"
    by (auto simp: x split: if_splits)
  then show ?case
  proof
    assume "e = duplicateError (rangeKey r) c"
    then show ?thesis by (simp add: x)
  next
    assume "e \<in> set (dupErrors (r # seen) xs)"
    from Cons.IH [OF this] show ?thesis by auto
  qed
qed

lemma error_strings_differ: "duplicateError k c \<noteq> mismatchError x y"
  by (simp add: duplicateError_def mismatchError_def)

lemma validateExtraction_errors:
  "errors (validateExtraction files cs)
   = dupErrors [] (taggedRanges cs)
     @ (if carriedLines cs = changedLines files then []
        else [mismatchError (carriedLines cs) (changedLines files)])"
proof -
  let ?st = "checkRanges cs"
  have e: "errors_v ?st = dupErrors [] (taggedRanges cs)"
    unfolding checkRanges_tagged by (simp add: fold_checkTagged [where seen = "[]"])
  have n: "extractedChanges ?st = carriedLines cs"
    unfolding checkRanges_tagged
    by (simp add: fold_checkTagged [where seen = "[]"] snd_taggedRanges carriedLines_def)
  show ?thesis
    by (simp add: validateExtraction_def Let_def e n totalChangedLines_count)
qed

lemma validateExtraction_valid:
  "valid (validateExtraction files cs) = (errors (validateExtraction files cs) = [])"
  by (simp add: validateExtraction_def Let_def)

lemma length_filter_nth:
  "length (filter (\<lambda>i. P (ls ! i)) [0..<length ls]) = length (filter P ls)"
proof -
  have "length (filter P ls) = length (filter P (map (nth ls) [0..<length ls]))"
    by (simp only: map_nth)
  also have "\<dots> = length (filter (\<lambda>i. P (ls ! i)) [0..<length ls])"
    by (simp only: filter_map length_map comp_def)
  finally show ?thesis by simp
qed

lemma length_hunkItems_all:
  "length (hunkItems commits cm (allHit p) h) = length (filter isChange (split_nl (content h)))"
  by (simp add: hunkItems_def lineItems_def allHit_def length_filter_nth)

lemma length_fileItems_all:
  "length (concat (map (hunkItems commits cm (allHit p)) hs))
   = length (filter isChange (concat (map (\<lambda>h. split_nl (content h)) hs)))"
  by (induction hs) (simp_all add: length_hunkItems_all)

lemma length_diffItems_all: "length (diffItems commits cm allHit files) = changedLines files"
  by (induction files)
     (simp_all add: diffItems_def fileItems_def changedLines_def length_fileItems_all)

lemma extract_carried:
  assumes ne: "commits \<noteq> []" and nm: "named commits cls"
    and dp: "distinct (map id_p commits)"
    and m: "foldE (extractFile commits (buildClassificationMap cls)) files (initialRanges commits) = Inr m"
    and out: "mapE (toCommitChanges m) commits = Inr changes"
  shows "carriedLines changes = changedLines files"
proof -
  have "carriedLines changes = size (itemsOf (mset (allRanges changes)))"
    by (simp add: carriedLines_def size_itemsOf_list)
  also have "\<dots> = length (diffItems commits (buildClassificationMap cls) allHit files)"
    by (simp add: extract_all_items [OF ne nm dp m out])
  finally show ?thesis by (simp add: length_diffItems_all)
qed

lemma length_filter_mono:
  "(\<And>x. x \<in> set xs \<Longrightarrow> P x \<Longrightarrow> Q x) \<Longrightarrow> length (filter P xs) \<le> length (filter Q xs)"
  by (induction xs) auto

lemma distinct_by_count:
  assumes "\<And>x. x \<in> set xs \<Longrightarrow> length (filter (\<lambda>y. f y = f x) xs) \<le> 1"
  shows "distinct (map f xs)"
  using assms
proof (induction xs)
  case Nil
  show ?case by simp
next
  case (Cons a xs)
  have "f a \<notin> f ` set xs"
  proof
    assume "f a \<in> f ` set xs"
    then obtain y where y: "y \<in> set xs" "f y = f a" by auto
    then have "filter (\<lambda>y. f y = f a) xs \<noteq> []" by (auto simp: filter_empty_conv)
    then have "1 \<le> length (filter (\<lambda>y. f y = f a) xs)" by (cases "filter (\<lambda>y. f y = f a) xs") auto
    with Cons.prems [of a] show False by simp
  qed
  moreover have "distinct (map f xs)"
  proof (rule Cons.IH)
    fix x
    assume x: "x \<in> set xs"
    with Cons.prems [of x] show "length (filter (\<lambda>y. f y = f x) xs) \<le> 1"
      by (simp split: if_splits)
  qed
  ultimately show ?case by simp
qed

lemma extract_distinct_spans:
  assumes dh: "distinctHunkIds files" and dp: "distinct (map id_p commits)"
    and ne: "commits \<noteq> []" and nm: "named commits cls"
    and m: "foldE (extractFile commits (buildClassificationMap cls)) files (initialRanges commits) = Inr m"
    and out: "mapE (toCommitChanges m) commits = Inr changes"
  shows "distinct (map spanOf (allRanges changes))"
proof (rule distinct_by_count)
  let ?cm = "buildClassificationMap cls"
  fix r
  assume r: "r \<in> set (allRanges changes)"
  from extract_all_runs [OF ne m out r] obtain c f h where
    f: "f \<in> set files" and h: "h \<in> set (hunks f)"
    and run: "runIn (cidOf commits ?cm (id_h h)) (id_h h) (split_nl (content h)) c r"
    unfolding isRunOf_def by blast
  from runIn_inOneHunk [OF f h run] obtain f' h' where
    f': "f' \<in> set files" and h': "h' \<in> set (hunks f')"
    and hid: "hunkId r = id_h h'" and s: "0 \<le> startLineIdx r"
    and se: "startLineIdx r \<le> endLineIdx r"
    and e: "endLineIdx r < int (length (split_nl (content h')))"
    and all: "\<forall>i. startLineIdx r \<le> int i \<and> int i \<le> endLineIdx r
               \<longrightarrow> isChange (split_nl (content h') ! i)
                   \<and> lineType (split_nl (content h') ! i) = type_r r"
    unfolding inOneHunk_def by blast
  let ?i = "nat (startLineIdx r)"
  from s se e have i: "?i < length (split_nl (content h'))" by simp
  from all [rule_format, of ?i] s se have ch: "isChange (split_nl (content h') ! ?i)" by simp
  from extract_exactly_one [OF dh dp ne nm m out f' h' i ch]
  have one: "length (filter (\<lambda>r'. covers r' (id_h h') ?i) (allRanges changes)) = 1" .
  have "length (filter (\<lambda>y. spanOf y = spanOf r) (allRanges changes))
        \<le> length (filter (\<lambda>r'. covers r' (id_h h') ?i) (allRanges changes))"
  proof (rule length_filter_mono)
    fix x
    assume "spanOf x = spanOf r"
    with hid s se show "covers x (id_h h') ?i" by (simp add: spanOf_def covers_def)
  qed
  with one show "length (filter (\<lambda>y. spanOf y = spanOf r) (allRanges changes)) \<le> 1" by simp
qed

text \<open>
  C4, as amended. \<^verbatim>\<open>validateExtraction\<close> is a total function; its verdict is \<open>valid\<close> exactly
  when it reports no error, and it reports no error exactly when the ranges carry as many
  lines as the diff has changed lines and no span (hunk id, start index, end index)
  occurs in two ranges, over all groups and files. The mismatch error is reported exactly
  when the two counts differ, a duplicate error (for some range, with the id of its group)
  exactly when a span occurs twice, and the two kinds of error strings differ. When the
  hunk ids of a diff are pairwise distinct, the ids of the plan are pairwise distinct, the
  plan is nonempty and every entry of the classification names a group of the plan, the
  result of \<^verbatim>\<open>extractChanges\<close> is validated with no error.
\<close>

theorem C4_validateExtraction_verdict:
  "valid (validateExtraction files cs) = (errors (validateExtraction files cs) = [])
   \<and> (errors (validateExtraction files cs) = []
        \<longleftrightarrow> carriedLines cs = changedLines files \<and> distinct (map spanOf (allRanges cs)))
   \<and> (mismatchError (carriedLines cs) (changedLines files)
          \<in> set (errors (validateExtraction files cs))
        \<longleftrightarrow> carriedLines cs \<noteq> changedLines files)
   \<and> ((\<exists>(c, r) \<in> set (taggedRanges cs).
           duplicateError (rangeKey r) c \<in> set (errors (validateExtraction files cs)))
        \<longleftrightarrow> \<not> distinct (map spanOf (allRanges cs)))
   \<and> duplicateError k g \<noteq> mismatchError x y
   \<and> (distinctHunkIds fs \<and> distinct (map id_p commits) \<and> commits \<noteq> []
        \<and> named commits classifications
        \<longrightarrow> (\<exists>changes. extractChanges fs commits classifications = Inr changes
               \<and> errors (validateExtraction fs changes) = []))"
proof -
  let ?E = "errors (validateExtraction files cs)" and ?D = "dupErrors [] (taggedRanges cs)"
  let ?M = "mismatchError (carriedLines cs) (changedLines files)"
  have E: "?E = ?D @ (if carriedLines cs = changedLines files then [] else [?M])"
    by (rule validateExtraction_errors)
  have D: "?D = [] \<longleftrightarrow> distinct (map spanOf (allRanges cs))"
    by (simp add: dupErrors_empty snd_taggedRanges)
  have noM: "?M \<notin> set ?D"
  proof
    assume "?M \<in> set ?D"
    from in_dupErrors [OF this] obtain c r where
      "?M = duplicateError (rangeKey r) c" by blast
    with error_strings_differ [of "rangeKey r" c "carriedLines cs" "changedLines files"]
    show False by simp
  qed
  have p1: "valid (validateExtraction files cs) = (?E = [])"
    by (rule validateExtraction_valid)
  have p2: "?E = [] \<longleftrightarrow> carriedLines cs = changedLines files \<and> distinct (map spanOf (allRanges cs))"
    using D by (auto simp: E)
  have p3: "?M \<in> set ?E \<longleftrightarrow> carriedLines cs \<noteq> changedLines files"
    using noM by (auto simp: E)
  have p4: "(\<exists>(c, r) \<in> set (taggedRanges cs). duplicateError (rangeKey r) c \<in> set ?E)
            \<longleftrightarrow> \<not> distinct (map spanOf (allRanges cs))"
  proof
    assume "\<exists>(c, r) \<in> set (taggedRanges cs). duplicateError (rangeKey r) c \<in> set ?E"
    then obtain c r where "duplicateError (rangeKey r) c \<in> set ?E" by blast
    with error_strings_differ [of "rangeKey r" c] have "duplicateError (rangeKey r) c \<in> set ?D"
      by (auto simp: E split: if_splits)
    then have "?D \<noteq> []" by auto
    with D show "\<not> distinct (map spanOf (allRanges cs))" by simp
  next
    assume "\<not> distinct (map spanOf (allRanges cs))"
    with D have "?D \<noteq> []" by simp
    then obtain e where e: "e \<in> set ?D" by (cases ?D) auto
    from in_dupErrors [OF e] obtain c r where
      "(c, r) \<in> set (taggedRanges cs)" "e = duplicateError (rangeKey r) c" by blast
    with e have "(c, r) \<in> set (taggedRanges cs)" "duplicateError (rangeKey r) c \<in> set ?E"
      by (simp_all add: E)
    then show "\<exists>(c, r) \<in> set (taggedRanges cs). duplicateError (rangeKey r) c \<in> set ?E"
      by blast
  qed
  have p5: "duplicateError k g \<noteq> mismatchError x y" by (rule error_strings_differ)
  have p6: "\<exists>changes. extractChanges fs commits classifications = Inr changes
               \<and> errors (validateExtraction fs changes) = []"
    if dh: "distinctHunkIds fs" and dp: "distinct (map id_p commits)" and ne: "commits \<noteq> []"
      and nm: "named commits classifications"
  proof -
    from extractChanges_total [OF ne nm] obtain changes where
      c: "extractChanges fs commits classifications = Inr changes" ..
    from extractChanges_Inr [OF c] obtain m where
      m: "foldE (extractFile commits (buildClassificationMap classifications)) fs
            (initialRanges commits) = Inr m"
      and out: "mapE (toCommitChanges m) commits = Inr changes" by blast
    have "carriedLines changes = changedLines fs"
      using ne nm dp m out by (rule extract_carried)
    moreover have "distinct (map spanOf (allRanges changes))"
      using dh dp ne nm m out by (rule extract_distinct_spans)
    ultimately have "errors (validateExtraction fs changes) = []"
      by (simp add: validateExtraction_errors dupErrors_empty snd_taggedRanges)
    with c show ?thesis by blast
  qed
  from p1 p2 p3 p4 p5 p6 show ?thesis by blast
qed

theorem C4_witness:
  "distinctHunkIds [exFile] \<and> distinct (map id_p exPlan) \<and> exPlan \<noteq> []
   \<and> named exPlan exClass
   \<and> extractChanges [exFile] exPlan exClass = Inr exChanges
   \<and> errors (validateExtraction [exFile] exChanges) = []
   \<and> valid (validateExtraction [exFile] exChanges)
   \<and> carriedLines exChanges = changedLines [exFile]
   \<and> distinct (map spanOf (allRanges exChanges))"
proof -
  have h1: "distinctHunkIds [exFile]" by code_simp
  have h2: "distinct (map id_p exPlan)" by code_simp
  have h3: "exPlan \<noteq> []" by code_simp
  have h4: "named exPlan exClass" by code_simp
  have e: "extractChanges [exFile] exPlan exClass = Inr exChanges" by code_simp
  note t = C4_validateExtraction_verdict
    [where files = "[exFile]" and cs = exChanges and fs = "[exFile]" and commits = exPlan
       and classifications = exClass]
  from t h1 h2 h3 h4 e have a: "errors (validateExtraction [exFile] exChanges) = []" by simp
  with t have "valid (validateExtraction [exFile] exChanges)"
    "carriedLines exChanges = changedLines [exFile]"
    "distinct (map spanOf (allRanges exChanges))" by blast+
  with a h1 h2 h3 h4 e show ?thesis by blast
qed

theorem C4_counterexample:
  "named exDupPlan exClassAll
   \<and> (case extractChanges [exFile] exDupPlan exClassAll of
        Inl e \<Rightarrow> False
      | Inr changes \<Rightarrow>
          errors (validateExtraction [exFile] changes)
          = [''Duplicate range: 0:1-1 in commit c1'',
             ''Duplicate range: 0:2-2 in commit c1'',
             ''Line count mismatch: extracted 5, expected 3''])"
  by code_simp

section \<open>The calls of the diff generator\<close>

lemma fileChangeStep_calls:
  assumes "fileChangeStep genDiff files fc (st, parts) = (st', parts')"
  shows "\<exists>cs. diffCalls st' = diffCalls st @ cs
            \<and> map path_d cs = touched files [fc]
            \<and> concat parts' = concat parts @ concat (map diff_d cs)
            \<and> (\<forall>c \<in> set cs. diff_d c = genDiff (path_d c) (before_d c) (after_d c) (isNewFile_d c))"
proof (cases "find (\<lambda>f. filePath f = filePath_f fc) files")
  case None
  with assms have "st' = st" "parts' = parts" by (simp_all add: fileChangeStep_def)
  with None show ?thesis by (simp add: touched_def)
next
  case (Some fl)
  let ?path = "filePath_f fc"
  let ?orig = "originalOf (ctx st) ?path"
  let ?new = "?path \<in> newFiles (ctx st) \<and> ?path \<notin> createdInPatch (ctx st)"
  let ?cur = "currentContent ?orig (hunks fl) (prevRangesOf st ?path)"
  let ?tgt = "buildFileContent ?orig (hunks fl) (prevRangesOf st ?path @ ranges fc)"
  let ?c = "\<lparr>path_d = ?path, before_d = ?cur, after_d = ?tgt, isNewFile_d = ?new,
             diff_d = genDiff ?path ?cur ?tgt ?new\<rparr>"
  from assms Some have "diffCalls st' = diffCalls st @ [?c]"
    and "parts' = (if diff_d ?c \<noteq> [] then parts @ [diff_d ?c] else parts)"
    by (auto simp: fileChangeStep_def Let_def)
  then have "diffCalls st' = diffCalls st @ [?c] \<and> map path_d [?c] = touched files [fc]
     \<and> concat parts' = concat parts @ concat (map diff_d [?c])
     \<and> (\<forall>c \<in> set [?c]. diff_d c = genDiff (path_d c) (before_d c) (after_d c) (isNewFile_d c))"
    using Some by (simp add: touched_def)
  then show ?thesis by blast
qed

lemma touched_Cons: "touched files (fc # fcs) = touched files [fc] @ touched files fcs"
  by (simp add: touched_def)

lemma fileChanges_calls:
  "fold (fileChangeStep genDiff files) fcs (st, parts) = (st', parts') \<Longrightarrow>
   \<exists>cs. diffCalls st' = diffCalls st @ cs
       \<and> map path_d cs = touched files fcs
       \<and> concat parts' = concat parts @ concat (map diff_d cs)
       \<and> (\<forall>c \<in> set cs. diff_d c = genDiff (path_d c) (before_d c) (after_d c) (isNewFile_d c))"
proof (induction fcs arbitrary: st parts)
  case Nil
  then show ?case by (simp add: touched_def)
next
  case (Cons fc fcs)
  obtain st1 parts1 where s1: "fileChangeStep genDiff files fc (st, parts) = (st1, parts1)"
    by (cases "fileChangeStep genDiff files fc (st, parts)")
  from fileChangeStep_calls [OF s1] obtain cs1 where
    a: "diffCalls st1 = diffCalls st @ cs1" "map path_d cs1 = touched files [fc]"
      "concat parts1 = concat parts @ concat (map diff_d cs1)"
      "\<forall>c \<in> set cs1. diff_d c = genDiff (path_d c) (before_d c) (after_d c) (isNewFile_d c)"
    by blast
  from Cons.prems s1 have "fold (fileChangeStep genDiff files) fcs (st1, parts1) = (st', parts')"
    by simp
  from Cons.IH [OF this] obtain cs2 where
    b: "diffCalls st' = diffCalls st1 @ cs2" "map path_d cs2 = touched files fcs"
      "concat parts' = concat parts1 @ concat (map diff_d cs2)"
      "\<forall>c \<in> set cs2. diff_d c = genDiff (path_d c) (before_d c) (after_d c) (isNewFile_d c)"
    by blast
  from a b have "diffCalls st' = diffCalls st @ (cs1 @ cs2)
     \<and> map path_d (cs1 @ cs2) = touched files (fc # fcs)
     \<and> concat parts' = concat parts @ concat (map diff_d (cs1 @ cs2))
     \<and> (\<forall>c \<in> set (cs1 @ cs2).
           diff_d c = genDiff (path_d c) (before_d c) (after_d c) (isNewFile_d c))"
    by (auto simp: touched_Cons [of files fc fcs])
  then show ?case by blast
qed

lemma commitStep_calls:
  assumes "commitStep genDiff files cc (st, results) = (st', results')"
  shows "\<exists>cs. diffCalls st' = diffCalls st @ cs
            \<and> map path_d cs = touched files (fileChanges cc)
            \<and> results' = results @ [patchOf cc cs]
            \<and> (\<forall>c \<in> set cs. diff_d c = genDiff (path_d c) (before_d c) (after_d c) (isNewFile_d c))"
proof -
  obtain st1 parts1 where
    f: "fold (fileChangeStep genDiff files) (fileChanges cc) (st, []) = (st1, parts1)"
    by (cases "fold (fileChangeStep genDiff files) (fileChanges cc) (st, [])")
  from fileChanges_calls [OF f] obtain cs where
    a: "diffCalls st1 = diffCalls st @ cs" "map path_d cs = touched files (fileChanges cc)"
      "concat parts1 = concat (map diff_d cs)"
      "\<forall>c \<in> set cs. diff_d c = genDiff (path_d c) (before_d c) (after_d c) (isNewFile_d c)"
    by auto
  from assms f have "st' = st1" "results' = results @ [patchOf cc cs]"
    by (simp_all add: commitStep_def patchOf_def a(3))
  with a show ?thesis by blast
qed

lemma commits_calls:
  "fold (commitStep genDiff files) ccs (st, results) = (st', results') \<Longrightarrow>
   \<exists>cs. diffCalls st' = diffCalls st @ cs
       \<and> map (map path_d) (groupCalls files ccs cs) = map (\<lambda>cc. touched files (fileChanges cc)) ccs
       \<and> concat (groupCalls files ccs cs) = cs
       \<and> results' = results @ map2 patchOf ccs (groupCalls files ccs cs)
       \<and> (\<forall>c \<in> set cs. diff_d c = genDiff (path_d c) (before_d c) (after_d c) (isNewFile_d c))"
proof (induction ccs arbitrary: st results)
  case Nil
  then show ?case by simp
next
  case (Cons cc ccs)
  obtain st1 r1 where s1: "commitStep genDiff files cc (st, results) = (st1, r1)"
    by (cases "commitStep genDiff files cc (st, results)")
  from commitStep_calls [OF s1] obtain cs1 where
    a: "diffCalls st1 = diffCalls st @ cs1" "map path_d cs1 = touched files (fileChanges cc)"
      "r1 = results @ [patchOf cc cs1]"
      "\<forall>c \<in> set cs1. diff_d c = genDiff (path_d c) (before_d c) (after_d c) (isNewFile_d c)"
    by blast
  from Cons.prems s1 have "fold (commitStep genDiff files) ccs (st1, r1) = (st', results')"
    by simp
  from Cons.IH [OF this] obtain cs2 where
    b: "diffCalls st' = diffCalls st1 @ cs2"
      "map (map path_d) (groupCalls files ccs cs2) = map (\<lambda>cc. touched files (fileChanges cc)) ccs"
      "concat (groupCalls files ccs cs2) = cs2"
      "results' = r1 @ map2 patchOf ccs (groupCalls files ccs cs2)"
      "\<forall>c \<in> set cs2. diff_d c = genDiff (path_d c) (before_d c) (after_d c) (isNewFile_d c)"
    by blast
  from a(2) have l: "length (touched files (fileChanges cc)) = length cs1"
    by (metis length_map)
  from a b l have "diffCalls st' = diffCalls st @ (cs1 @ cs2)
     \<and> map (map path_d) (groupCalls files (cc # ccs) (cs1 @ cs2))
         = map (\<lambda>cc. touched files (fileChanges cc)) (cc # ccs)
     \<and> concat (groupCalls files (cc # ccs) (cs1 @ cs2)) = cs1 @ cs2
     \<and> results' = results @ map2 patchOf (cc # ccs) (groupCalls files (cc # ccs) (cs1 @ cs2))
     \<and> (\<forall>c \<in> set (cs1 @ cs2).
           diff_d c = genDiff (path_d c) (before_d c) (after_d c) (isNewFile_d c))"
    by auto
  then show ?case by blast
qed

lemma buildPatches_calls:
  "map (map path_d) (groupCalls files ccs (callsOf getFile genDiff files ccs commitHash))
     = map (\<lambda>cc. touched files (fileChanges cc)) ccs
   \<and> concat (groupCalls files ccs (callsOf getFile genDiff files ccs commitHash))
     = callsOf getFile genDiff files ccs commitHash
   \<and> buildPatches getFile genDiff files ccs commitHash
     = map2 patchOf ccs (groupCalls files ccs (callsOf getFile genDiff files ccs commitHash))
   \<and> (\<forall>c \<in> set (callsOf getFile genDiff files ccs commitHash).
         diff_d c = genDiff (path_d c) (before_d c) (after_d c) (isNewFile_d c))"
proof -
  obtain st' rs where
    r: "buildPatchesRun getFile genDiff files ccs commitHash = (st', rs)"
    by (cases "buildPatchesRun getFile genDiff files ccs commitHash")
  from commits_calls [OF r [unfolded buildPatchesRun_def]] r
  show ?thesis by (simp add: callsOf_def buildPatches_def)
qed

lemma agreeOn_append:
  "agreeOn g' g (xs @ ys) \<longleftrightarrow> agreeOn g' g xs \<and> agreeOn g' g ys"
  by (simp add: agreeOn_def)

lemma fileChangeStep_agree:
  assumes "agreeOn g' g (diffCalls (fst (fileChangeStep g files fc sp)))"
  shows "fileChangeStep g' files fc sp = fileChangeStep g files fc sp"
proof (cases sp)
  case (Pair st parts)
  show ?thesis
  proof (cases "find (\<lambda>f. filePath f = filePath_f fc) files")
    case None
    then show ?thesis by (simp add: fileChangeStep_def Pair)
  next
    case (Some fl)
    let ?path = "filePath_f fc"
    let ?orig = "originalOf (ctx st) ?path"
    let ?new = "?path \<in> newFiles (ctx st) \<and> ?path \<notin> createdInPatch (ctx st)"
    let ?cur = "currentContent ?orig (hunks fl) (prevRangesOf st ?path)"
    let ?tgt = "buildFileContent ?orig (hunks fl) (prevRangesOf st ?path @ ranges fc)"
    from assms have "g' ?path ?cur ?tgt ?new = g ?path ?cur ?tgt ?new"
      by (simp add: fileChangeStep_def Pair Some Let_def agreeOn_def)
    then show ?thesis by (simp add: fileChangeStep_def Pair Some Let_def)
  qed
qed

lemma fileChanges_agree:
  "agreeOn g' g (diffCalls (fst (fold (fileChangeStep g files) fcs sp))) \<Longrightarrow>
   fold (fileChangeStep g' files) fcs sp = fold (fileChangeStep g files) fcs sp"
proof (induction fcs arbitrary: sp)
  case Nil
  show ?case by simp
next
  case (Cons fc fcs)
  obtain st1 p1 where s1: "fileChangeStep g files fc sp = (st1, p1)"
    by (cases "fileChangeStep g files fc sp")
  obtain st2 p2 where s2: "fold (fileChangeStep g files) fcs (st1, p1) = (st2, p2)"
    by (cases "fold (fileChangeStep g files) fcs (st1, p1)")
  from fileChanges_calls [OF s2] obtain cs where cs: "diffCalls st2 = diffCalls st1 @ cs" by blast
  from Cons.prems s1 s2 cs have a: "agreeOn g' g (diffCalls st1)"
    by (simp add: agreeOn_append)
  then have "fileChangeStep g' files fc sp = fileChangeStep g files fc sp"
    by (intro fileChangeStep_agree) (simp add: s1)
  moreover from Cons.prems s1
  have "fold (fileChangeStep g' files) fcs (st1, p1) = fold (fileChangeStep g files) fcs (st1, p1)"
    by (intro Cons.IH) simp
  ultimately show ?case by (simp add: s1)
qed

lemma commitStep_agree:
  assumes "agreeOn g' g (diffCalls (fst (commitStep g files cc sr)))"
  shows "commitStep g' files cc sr = commitStep g files cc sr"
proof (cases sr)
  case (Pair st rs)
  obtain st1 p1 where f: "fold (fileChangeStep g files) (fileChanges cc) (st, []) = (st1, p1)"
    by (cases "fold (fileChangeStep g files) (fileChanges cc) (st, [])")
  from assms have "agreeOn g' g (diffCalls st1)" by (simp add: commitStep_def Pair f)
  then have "fold (fileChangeStep g' files) (fileChanges cc) (st, [])
             = fold (fileChangeStep g files) (fileChanges cc) (st, [])"
    by (intro fileChanges_agree) (simp add: f)
  then show ?thesis by (simp add: commitStep_def Pair)
qed

lemma commits_agree:
  "agreeOn g' g (diffCalls (fst (fold (commitStep g files) ccs sr))) \<Longrightarrow>
   fold (commitStep g' files) ccs sr = fold (commitStep g files) ccs sr"
proof (induction ccs arbitrary: sr)
  case Nil
  show ?case by simp
next
  case (Cons cc ccs)
  obtain st1 r1 where s1: "commitStep g files cc sr = (st1, r1)"
    by (cases "commitStep g files cc sr")
  obtain st2 r2 where s2: "fold (commitStep g files) ccs (st1, r1) = (st2, r2)"
    by (cases "fold (commitStep g files) ccs (st1, r1)")
  from commits_calls [OF s2] obtain cs where cs: "diffCalls st2 = diffCalls st1 @ cs" by blast
  from Cons.prems s1 s2 cs have a: "agreeOn g' g (diffCalls st1)"
    by (simp add: agreeOn_append)
  then have "commitStep g' files cc sr = commitStep g files cc sr"
    by (intro commitStep_agree) (simp add: s1)
  moreover from Cons.prems s1
  have "fold (commitStep g' files) ccs (st1, r1) = fold (commitStep g files) ccs (st1, r1)"
    by (intro Cons.IH) simp
  ultimately show ?case by (simp add: s1)
qed

lemma initializeContext_agree:
  assumes "\<And>f. f \<in> set files \<Longrightarrow>
      getFile' (commitHash @ ''~1'') (filePath f) = getFile (commitHash @ ''~1'') (filePath f)"
  shows "initializeContext getFile' files commitHash = initializeContext getFile files commitHash"
  unfolding initializeContext_def
  by (rule fold_cong) (simp_all add: assms fun_eq_iff)

lemma buildPatchesRun_agree:
  assumes "\<And>f. f \<in> set files \<Longrightarrow>
      getFile' (commitHash @ ''~1'') (filePath f) = getFile (commitHash @ ''~1'') (filePath f)"
    and "agreeOn g' g (callsOf getFile g files ccs commitHash)"
  shows "buildPatchesRun getFile' g' files ccs commitHash
         = buildPatchesRun getFile g files ccs commitHash"
proof -
  have i: "initializeContext getFile' files commitHash = initializeContext getFile files commitHash"
    using assms(1) by (rule initializeContext_agree [where getFile' = getFile' and getFile = getFile])
  have "buildPatchesRun getFile' g' files ccs commitHash
        = fold (commitStep g' files) ccs
            (\<lparr>ctx = initializeContext getFile files commitHash,
              cumulativeRangesByFile = Map.empty, diffCalls = []\<rparr>, [])"
    by (simp add: buildPatchesRun_def i)
  also have "\<dots> = buildPatchesRun getFile g files ccs commitHash"
    unfolding buildPatchesRun_def
    by (rule commits_agree) (use assms(2) in \<open>simp add: callsOf_def buildPatchesRun_def\<close>)
  finally show ?thesis .
qed

lemma extract_heads:
  "mapE (toCommitChanges m) commits = Inr changes \<Longrightarrow>
   map commitId changes = map id_p commits
   \<and> map message changes = map message_p commits
   \<and> map description changes = map description_p commits"
proof (induction commits arbitrary: changes)
  case Nil
  then show ?case by simp
next
  case (Cons c cs)
  from Cons.prems obtain y ys where y: "toCommitChanges m c = Inr y"
    and ys: "mapE (toCommitChanges m) cs = Inr ys" and e: "changes = y # ys"
    by (rule mapE_Cons_Inr)
  from toCommitChanges_Inr(1,2,3) [OF y] Cons.IH [OF ys] e show ?case by simp
qed

lemma map2_patchOf_heads:
  "length gs = length ccs \<Longrightarrow>
   map commitId_a (map2 patchOf ccs gs) = map commitId ccs
   \<and> map message_a (map2 patchOf ccs gs) = map message ccs
   \<and> map description_a (map2 patchOf ccs gs) = map description ccs
   \<and> map patch (map2 patchOf ccs gs) = map (\<lambda>g. concat (map diff_d g)) gs"
  by (induction ccs gs rule: list_induct2') (simp_all add: patchOf_def)

lemma length_groupCalls: "length (groupCalls files ccs calls) = length ccs"
  by (induction ccs arbitrary: calls) simp_all

section \<open>The order of the files\<close>

lemma subseq_snoc_notin:
  assumes "subseq xs (ys @ [p])" "p \<notin> set xs"
  shows "subseq xs ys"
proof -
  from assms(1) obtain xs1 xs2 where x: "xs = xs1 @ xs2" and s1: "subseq xs1 ys"
    and s2: "subseq xs2 [p]" by (rule subseq_appendE)
  from s2 assms(2) x have "xs2 = []" by (cases xs2) (auto simp: subseq_Cons2_iff split: if_splits)
  with x s1 show ?thesis by simp
qed

lemma update_follow:
  assumes s: "subseq (map fst fr) (ps @ [path])"
  shows "subseq (map fst (AList.update path v fr)) (ps @ [path])"
proof (cases "path \<in> set (map fst fr)")
  case True
  then have "map fst (AList.update path v fr) = map fst fr" by (simp only: update_keys if_True)
  with s show ?thesis by simp
next
  case False
  with s have "subseq (map fst fr) ps" by (rule subseq_snoc_notin)
  then have "subseq (map fst fr @ [path]) (ps @ [path])" by (simp only: subseq_append)
  moreover from False have "map fst (AList.update path v fr) = map fst fr @ [path]"
    by (simp only: update_keys if_False)
  ultimately show ?thesis by simp
qed

lemma flushRange_follow:
  assumes q: "pathsFollow (ps @ [path]) m" and f: "flushRange path hid cur m = Inr m'"
  shows "pathsFollow (ps @ [path]) m'"
proof (cases cur)
  case None
  with f q show ?thesis by simp
next
  case (Some cr)
  from f [unfolded Some] obtain fr where fr: "map_of m (commitId_cr cr) = Some fr"
    and m': "m' = AList.update (commitId_cr cr)
          (AList.update path (rangesAt m (commitId_cr cr) path @ [rangeOf hid cr]) fr) m"
    by (rule flushRange_Some_eq)
  let ?fr = "AList.update path (rangesAt m (commitId_cr cr) path @ [rangeOf hid cr]) fr"
  from q fr have s: "subseq (map fst fr) (ps @ [path])" unfolding pathsFollow_def by blast
  then have n: "subseq (map fst ?fr) (ps @ [path])" by (rule update_follow)
  have mo: "map_of m' = (map_of m)(commitId_cr cr \<mapsto> ?fr)"
    unfolding m' by (rule update_conv')
  show ?thesis unfolding pathsFollow_def
  proof (intro allI impI)
    fix c fr'
    assume a: "map_of m' c = Some fr'"
    show "subseq (map fst fr') (ps @ [path])"
    proof (cases "c = commitId_cr cr")
      case True
      with a mo have "fr' = ?fr" by simp
      with n show ?thesis by simp
    next
      case False
      with a mo have "map_of m c = Some fr'" by simp
      with q show ?thesis unfolding pathsFollow_def by blast
    qed
  qed
qed

lemma step_follow:
  assumes link: "commitFor commits classMap (hid, int i) = Inr (g i)"
    and sl: "scanLine path hid commits classMap i (ls ! i) st = Inr st'"
    and q: "pathsFollow (ps @ [path]) (commitFileRanges st)"
  shows "pathsFollow (ps @ [path]) (commitFileRanges st')"
proof (cases "isChange (ls ! i)")
  case False
  from scanLine_context [OF False sl] obtain m' where
    "flushRange path hid (currentRange st) (commitFileRanges st) = Inr m'"
    "commitFileRanges st' = m'" by blast
  with flushRange_follow [OF q] show ?thesis by simp
next
  case True
  show ?thesis
  proof (cases "canExtend (currentRange st) (g i) (lineType (ls ! i)) i")
    case ext: True
    from scanLine_extend(2) [OF True link ext sl] q show ?thesis by simp
  next
    case noext: False
    from scanLine_start [OF True link noext sl] obtain m' where
      "flushRange path hid (currentRange st) (commitFileRanges st) = Inr m'"
      "commitFileRanges st' = m'" by blast
    with flushRange_follow [OF q] show ?thesis by simp
  qed
qed

lemma extractHunk_follow:
  assumes link: "\<And>i. commitFor commits classMap (id_h hunk, int i) = Inr (g i)"
    and ex: "extractHunk commits classMap path hunk m = Inr m'"
    and q: "pathsFollow (ps @ [path]) m"
  shows "pathsFollow (ps @ [path]) m'"
proof -
  let ?ls = "split_nl (content hunk)" and ?hid = "id_h hunk"
  let ?P = "\<lambda>(i::nat) (st::ScanState). pathsFollow (ps @ [path]) (commitFileRanges st)"
  from extractHunk_Inr [OF ex] obtain st where
    fo: "foldE (\<lambda>j. scanLine path ?hid commits classMap j (?ls ! j)) [0..<effLen ?ls]
           (initState hunk m) = Inr st"
    and fl: "flushRange path ?hid (currentRange st) (commitFileRanges st) = Inr m'" by blast
  have "?P (effLen ?ls) st"
  proof (rule foldE_upt_inv [where P = ?P, OF fo])
    show "?P 0 (initState hunk m)" using q by (simp add: initState_def)
  next
    fix j t t'
    assume P: "?P j t" and sl: "scanLine path ?hid commits classMap j (?ls ! j) t = Inr t'"
    from step_follow [where g = g, OF link sl P] show "?P (Suc j) t'" .
  qed simp
  then show ?thesis using fl by (rule flushRange_follow)
qed

lemma extractFiles_follow:
  assumes ne: "commits \<noteq> []"
  shows "foldE (extractFile commits classMap) fs m = Inr m' \<Longrightarrow> pathsFollow ps m \<Longrightarrow>
         pathsFollow (ps @ map filePath fs) m'"
proof (induction fs arbitrary: m ps)
  case Nil
  then show ?case by simp
next
  case (Cons f fs)
  from Cons.prems(1) obtain t where t: "extractFile commits classMap f m = Inr t"
    and r: "foldE (extractFile commits classMap) fs t = Inr m'"
    by (cases "extractFile commits classMap f m") auto
  have q0: "pathsFollow (ps @ [filePath f]) m"
    unfolding pathsFollow_def
  proof (intro allI impI)
    fix c fr
    assume "map_of m c = Some fr"
    with Cons.prems(2) have "subseq (map fst fr) ps" by (simp add: pathsFollow_def)
    then show "subseq (map fst fr) (ps @ [filePath f])" by (rule subseq_rev_drop_many)
  qed
  have "pathsFollow (ps @ [filePath f]) t"
  proof (rule foldE_inv [where P = "pathsFollow (ps @ [filePath f])", OF t [unfolded extractFile_def] q0])
    fix h u u'
    assume "pathsFollow (ps @ [filePath f]) u"
      "extractHunk commits classMap (filePath f) h u = Inr u'"
    with extractHunk_follow [where g = "cidOf commits classMap (id_h h)", OF commitFor_link [OF ne]]
    show "pathsFollow (ps @ [filePath f]) u'" by blast
  qed
  from Cons.IH [OF r this] show ?case by simp
qed

lemma extract_file_order:
  assumes ex: "extractChanges files commits cls = Inr changes" and cc: "cc \<in> set changes"
  shows "subseq (map filePath_f (fileChanges cc)) (map filePath files)"
proof (cases "commits = []")
  case True
  with ex have "changes = []" by (auto simp: extractChanges_def split: sum.splits)
  with cc show ?thesis by simp
next
  case False
  from extractChanges_Inr [OF ex] obtain m where
    m: "foldE (extractFile commits (buildClassificationMap cls)) files (initialRanges commits) = Inr m"
    and out: "mapE (toCommitChanges m) commits = Inr changes" by blast
  have "pathsFollow [] (initialRanges commits)"
    by (auto simp: pathsFollow_def dest: initialRanges_map_of)
  from extractFiles_follow [OF False m this] have q: "pathsFollow (map filePath files) m" by simp
  from changes_member [OF out cc] obtain commit where
    t: "toCommitChanges m commit = Inr cc" by blast
  then obtain fr where fr: "map_of m (id_p commit) = Some fr"
    and f: "fileChanges cc = map (\<lambda>(p, rs). \<lparr>filePath_f = p, ranges = rs\<rparr>)
                     (filter (\<lambda>(p, rs). rs \<noteq> []) fr)"
    by (auto simp: toCommitChanges_def split: option.splits)
  have "map filePath_f (fileChanges cc) = map fst (filter (\<lambda>(p, rs). rs \<noteq> []) fr)"
    by (simp add: f case_prod_beta comp_def)
  moreover have "subseq (map fst (filter (\<lambda>(p, rs). rs \<noteq> []) fr)) (map fst fr)"
    by (intro subseq_map subseq_filter_left)
  moreover from q fr have "subseq (map fst fr) (map filePath files)" by (simp add: pathsFollow_def)
  ultimately show ?thesis by (simp only: subseq_order.trans)
qed

lemma subseq_known:
  assumes "subseq (map filePath_f fcs) (map filePath files)"
  shows "touched files fcs = map filePath_f fcs"
proof -
  have "find (\<lambda>f. filePath f = p) files \<noteq> None" if "p \<in> set (map filePath_f fcs)" for p
  proof -
    from list_emb_set [OF assms that] have "p \<in> set (map filePath files)" by blast
    then show ?thesis by (auto simp: find_None_iff)
  qed
  then show ?thesis unfolding touched_def by (intro filter_True) blast
qed

text \<open>
  C8. A run is determined by its inputs and by the answers it gets: when a second content
  provider gives the same content for the files of the diff and a second diff generator
  answers the calls of the first run as the first one did, the second run makes the same
  calls and returns the same patches. The patches come one per plan entry, in plan order,
  with the id, message and description of the entry; the calls are one per group and file
  change, group after group in the order of the file changes; the text of a patch is the
  concatenation of the answers to the calls of its group in that order; and the file
  changes of a group follow the order of the files of the diff.
\<close>

theorem C8_same_inputs_and_responses_same_patches:
  assumes "extractChanges files commits classifications = Inr changes"
    and "\<forall>f \<in> set files. getFile' (commitHash @ ''~1'') (filePath f)
                            = getFile (commitHash @ ''~1'') (filePath f)"
    and "agreeOn genDiff' genDiff (callsOf getFile genDiff files changes commitHash)"
  shows "buildPatches getFile' genDiff' files changes commitHash
           = buildPatches getFile genDiff files changes commitHash
         \<and> callsOf getFile' genDiff' files changes commitHash
           = callsOf getFile genDiff files changes commitHash
         \<and> map commitId_a (buildPatches getFile genDiff files changes commitHash)
           = map id_p commits
         \<and> map message_a (buildPatches getFile genDiff files changes commitHash)
           = map message_p commits
         \<and> map description_a (buildPatches getFile genDiff files changes commitHash)
           = map description_p commits
         \<and> map patch (buildPatches getFile genDiff files changes commitHash)
           = map (\<lambda>g. concat (map diff_d g))
               (groupCalls files changes (callsOf getFile genDiff files changes commitHash))
         \<and> map (map path_d)
               (groupCalls files changes (callsOf getFile genDiff files changes commitHash))
           = map (\<lambda>cc. map filePath_f (fileChanges cc)) changes
         \<and> concat (groupCalls files changes (callsOf getFile genDiff files changes commitHash))
           = callsOf getFile genDiff files changes commitHash
         \<and> (\<forall>cc \<in> set changes. subseq (map filePath_f (fileChanges cc)) (map filePath files))"
proof -
  let ?calls = "callsOf getFile genDiff files changes commitHash"
  let ?P = "buildPatches getFile genDiff files changes commitHash"
  from assms(2,3) have run: "buildPatchesRun getFile' genDiff' files changes commitHash
      = buildPatchesRun getFile genDiff files changes commitHash"
    by (intro buildPatchesRun_agree) simp_all
  then have p1: "buildPatches getFile' genDiff' files changes commitHash = ?P"
    and p2: "callsOf getFile' genDiff' files changes commitHash = ?calls"
    by (simp_all add: buildPatches_def callsOf_def)
  from extractChanges_Inr [OF assms(1)] obtain m where
    out: "mapE (toCommitChanges m) commits = Inr changes" by blast
  note h = extract_heads [OF out]
  note b = buildPatches_calls [of files changes getFile genDiff commitHash]
  from b have P: "?P = map2 patchOf changes (groupCalls files changes ?calls)" by blast
  note g = map2_patchOf_heads [OF length_groupCalls [of files changes ?calls]]
  from g h have p3: "map commitId_a ?P = map id_p commits"
    and p4: "map message_a ?P = map message_p commits"
    and p5: "map description_a ?P = map description_p commits"
    and p6: "map patch ?P = map (\<lambda>g. concat (map diff_d g)) (groupCalls files changes ?calls)"
    unfolding P by simp_all
  have order: "subseq (map filePath_f (fileChanges cc)) (map filePath files)"
    if "cc \<in> set changes" for cc
    using assms(1) that by (rule extract_file_order)
  have "map (\<lambda>cc. touched files (fileChanges cc)) changes
        = map (\<lambda>cc. map filePath_f (fileChanges cc)) changes"
    by (rule map_cong [OF refl]) (rule subseq_known [OF order])
  with b have p7: "map (map path_d) (groupCalls files changes ?calls)
        = map (\<lambda>cc. map filePath_f (fileChanges cc)) changes" by simp
  from b have p8: "concat (groupCalls files changes ?calls) = ?calls" by blast
  from p1 p2 p3 p4 p5 p6 p7 p8 order show ?thesis by blast
qed

theorem C8_witness:
  "extractChanges [exFile] exPlan exClass = Inr exChanges
   \<and> exProviderOther (''abc'' @ ''~1'') (filePath exFile)
       = exProvider (''abc'' @ ''~1'') (filePath exFile)
   \<and> agreeOn exGenOther exGen (callsOf exProvider exGen [exFile] exChanges ''abc'')
   \<and> buildPatches exProviderOther exGenOther [exFile] exChanges ''abc''
       = buildPatches exProvider exGen [exFile] exChanges ''abc''
   \<and> map commitId_a (buildPatches exProvider exGen [exFile] exChanges ''abc'') = map id_p exPlan
   \<and> map (map path_d)
         (groupCalls [exFile] exChanges (callsOf exProvider exGen [exFile] exChanges ''abc''))
       = [[''F''], [''F'']]"
proof -
  have h1: "extractChanges [exFile] exPlan exClass = Inr exChanges" by code_simp
  have h2: "\<forall>f \<in> set [exFile]. exProviderOther (''abc'' @ ''~1'') (filePath f)
                            = exProvider (''abc'' @ ''~1'') (filePath f)" by code_simp
  have h3: "agreeOn exGenOther exGen (callsOf exProvider exGen [exFile] exChanges ''abc'')"
    by code_simp
  have e: "map (\<lambda>cc. map filePath_f (fileChanges cc)) exChanges = [[''F''], [''F'']]"
    by code_simp
  from C8_same_inputs_and_responses_same_patches
    [where getFile' = exProviderOther and getFile = exProvider and genDiff' = exGenOther
       and genDiff = exGen, OF h1 h2 h3] h1 h2 h3 e
  show ?thesis by simp
qed

section \<open>The new-file flag\<close>

lemma fold_invariant: "P s \<Longrightarrow> (\<And>x t. x \<in> set xs \<Longrightarrow> P t \<Longrightarrow> P (f x t)) \<Longrightarrow> P (fold f xs s)"
  by (induction xs arbitrary: s) simp_all

lemma initializeContext_newFiles:
  "newFiles (initializeContext getFile files commitHash) = {p. flaggedNew files p}
   \<and> createdInPatch (initializeContext getFile files commitHash) = {}"
proof -
  let ?step = "\<lambda>file c.
        if isNewFileHeader (fileHeader file)
        then c\<lparr>newFiles := insert (filePath file) (newFiles c),
               fileStates := (fileStates c)(filePath file \<mapsto> [])\<rparr>
        else c\<lparr>fileStates := (fileStates c)(filePath file \<mapsto>
                 (case getFile (commitHash @ ''~1'') (filePath file) of
                    Some text \<Rightarrow> text
                  | None \<Rightarrow> []))\<rparr>"
  have "newFiles (fold ?step fs c) = newFiles c \<union> {p. flaggedNew fs p}
        \<and> createdInPatch (fold ?step fs c) = createdInPatch c" for fs and c :: PatchBuildContext
    by (induction fs arbitrary: c) (auto simp: flaggedNew_def)
  then show ?thesis by (simp add: initializeContext_def)
qed

lemma flagsRight_snoc:
  "flagsRight files (calls @ [c]) \<longleftrightarrow>
     flagsRight files calls
     \<and> isNewFile_d c = (flaggedNew files (path_d c) \<and> \<not> introducedIn calls (path_d c))"
proof -
  have "list_all (\<lambda>j. isNewFile_d ((calls @ [c]) ! j)
                     = (flaggedNew files (path_d ((calls @ [c]) ! j))
                        \<and> \<not> introducedIn (take j (calls @ [c])) (path_d ((calls @ [c]) ! j))))
          [0..<length calls]
        = list_all (\<lambda>j. isNewFile_d (calls ! j)
                     = (flaggedNew files (path_d (calls ! j))
                        \<and> \<not> introducedIn (take j calls) (path_d (calls ! j))))
          [0..<length calls]"
    by (rule list_all_cong [OF refl]) (simp add: nth_append)
  then show ?thesis by (simp add: flagsRight_def)
qed

lemma fileChangeStep_flagInv:
  assumes "flagInv files (fst sp)"
  shows "flagInv files (fst (fileChangeStep genDiff files fc sp))"
proof (cases sp)
  case (Pair st parts)
  show ?thesis
  proof (cases "find (\<lambda>f. filePath f = filePath_f fc) files")
    case None
    with assms show ?thesis by (simp add: fileChangeStep_def Pair)
  next
    case (Some fl)
    let ?path = "filePath_f fc"
    let ?orig = "originalOf (ctx st) ?path"
    let ?cur = "currentContent ?orig (hunks fl) (prevRangesOf st ?path)"
    let ?tgt = "buildFileContent ?orig (hunks fl) (prevRangesOf st ?path @ ranges fc)"
    define new where "new = (?path \<in> newFiles (ctx st) \<and> ?path \<notin> createdInPatch (ctx st))"
    define d where "d = genDiff ?path ?cur ?tgt new"
    define c where "c = \<lparr>path_d = ?path, before_d = ?cur, after_d = ?tgt, isNewFile_d = new,
                            diff_d = d\<rparr>"
    define st' where "st' = fst (fileChangeStep genDiff files fc sp)"
    have "st' = st\<lparr>ctx := (if d \<noteq> [] \<and> new
                             then (ctx st)\<lparr>createdInPatch := insert ?path (createdInPatch (ctx st))\<rparr>
                             else ctx st),
                     cumulativeRangesByFile :=
                       (cumulativeRangesByFile st)(?path \<mapsto> prevRangesOf st ?path @ ranges fc),
                     diffCalls := diffCalls st @ [c]\<rparr>"
      unfolding st'_def c_def d_def new_def
      by (simp add: fileChangeStep_def Pair Some Let_def)
    then have calls: "diffCalls st' = diffCalls st @ [c]"
      and n': "newFiles (ctx st') = newFiles (ctx st)"
      and c': "createdInPatch (ctx st')
              = (if d \<noteq> [] \<and> new then insert ?path (createdInPatch (ctx st))
                 else createdInPatch (ctx st))"
      by simp_all
    from assms have n: "newFiles (ctx st) = {p. flaggedNew files p}"
      and cr: "createdInPatch (ctx st) = {p. flaggedNew files p \<and> introducedIn (diffCalls st) p}"
      and f: "flagsRight files (diffCalls st)"
      by (simp_all add: flagInv_def Pair)
    have new: "new = (flaggedNew files ?path \<and> \<not> introducedIn (diffCalls st) ?path)"
      unfolding new_def n cr by blast
    have i: "introducedIn (diffCalls st @ [c]) q
             = (introducedIn (diffCalls st) q \<or> (q = ?path \<and> d \<noteq> []))" for q
      by (auto simp: introducedIn_def c_def)
    have "createdInPatch (ctx st')
          = {p. flaggedNew files p \<and> introducedIn (diffCalls st @ [c]) p}"
      unfolding c' i using new cr by auto
    moreover have "flagsRight files (diffCalls st @ [c])"
      unfolding flagsRight_snoc using f new by (simp add: c_def)
    ultimately have "flagInv files st'" unfolding flagInv_def calls n' n by simp
    then show ?thesis by (simp only: st'_def)
  qed
qed

lemma commitStep_flagInv:
  assumes "flagInv files (fst sr)"
  shows "flagInv files (fst (commitStep genDiff files cc sr))"
proof (cases sr)
  case (Pair st rs)
  have "flagInv files (fst (fold (fileChangeStep genDiff files) (fileChanges cc) (st, [])))"
    by (rule fold_invariant [where P = "\<lambda>sp. flagInv files (fst sp)"])
       (use assms Pair in \<open>simp_all add: fileChangeStep_flagInv\<close>)
  then show ?thesis
    by (cases "fold (fileChangeStep genDiff files) (fileChanges cc) (st, [])")
       (simp add: commitStep_def Pair)
qed

lemma buildPatches_flags: "flagsRight files (callsOf getFile genDiff files ccs commitHash)"
proof -
  have "flagInv files (fst (buildPatchesRun getFile genDiff files ccs commitHash))"
    unfolding buildPatchesRun_def
  proof (rule fold_invariant [where P = "\<lambda>sr. flagInv files (fst sr)"])
    show "flagInv files (fst (\<lparr>ctx = initializeContext getFile files commitHash,
             cumulativeRangesByFile = Map.empty, diffCalls = []\<rparr>, []))"
      by (simp add: flagInv_def initializeContext_newFiles introducedIn_def flagsRight_def)
  next
    fix x and t :: "BuildState \<times> AssembledPatch list"
    assume "flagInv files (fst t)"
    then show "flagInv files (fst (commitStep genDiff files x t))" by (rule commitStep_flagInv)
  qed
  then show ?thesis by (simp add: flagInv_def callsOf_def)
qed

lemma flagsRight_nth:
  assumes "flagsRight files calls" "j < length calls"
  shows "isNewFile_d (calls ! j)
         = (flaggedNew files (path_d (calls ! j))
            \<and> \<not> introducedIn (take j calls) (path_d (calls ! j)))"
proof -
  from assms(2) have "j \<in> set [0..<length calls]" by simp
  with assms(1) show ?thesis unfolding flagsRight_def list_all_iff by blast
qed

lemma nth_in_take: "i < j \<Longrightarrow> j < length xs \<Longrightarrow> xs ! i \<in> set (take j xs)"
proof -
  assume "i < j" "j < length xs"
  then have "i < length (take j xs)" "take j xs ! i = xs ! i" by simp_all
  then show ?thesis by (metis nth_mem)
qed

lemma foldE_member:
  "foldE f xs s = Inr s' \<Longrightarrow> x \<in> set xs \<Longrightarrow> \<exists>t t'. f x t = Inr t'"
proof (induction xs arbitrary: s)
  case Nil
  then show ?case by simp
next
  case (Cons y ys)
  from Cons.prems(1) obtain t where t: "f y s = Inr t" and r: "foldE f ys t = Inr s'"
    by (cases "f y s") auto
  show ?case
  proof (cases "x = y")
    case True
    with t show ?thesis by blast
  next
    case False
    with Cons.prems(2) have "x \<in> set ys" by simp
    from Cons.IH [OF r this] show ?thesis .
  qed
qed

lemma changed_before_effLen:
  assumes "i < length ls" "isChange (ls ! i)"
  shows "i < effLen ls"
proof (rule ccontr)
  assume "\<not> i < effLen ls"
  with assms(1) have e: "effLen ls < length ls" by simp
  from effLen_skip [OF e] have z: "ls ! effLen ls = []" and l: "effLen ls = length ls - 1"
    by blast+
  from l \<open>\<not> i < effLen ls\<close> assms(1) have "i = effLen ls" by arith
  with z assms(2) show False by simp
qed

lemma scanLine_throws:
  "isChange l \<Longrightarrow> commitFor commits cm (hid, int i) = Inl e \<Longrightarrow>
   scanLine path hid commits cm i l st = Inl e"
  by (simp add: scanLine_def isChange_def)

lemma extract_reaches_line:
  assumes ex: "extractChanges files commits cls = Inr changes"
    and f: "f \<in> set files" and h: "h \<in> set (hunks f)"
    and i: "i < length (split_nl (content h))" and ch: "isChange (split_nl (content h) ! i)"
  shows "\<exists>c. commitFor commits (buildClassificationMap cls) (id_h h, int i) = Inr c"
proof -
  let ?cm = "buildClassificationMap cls" and ?ls = "split_nl (content h)"
  from extractChanges_Inr [OF ex] obtain m where
    m: "foldE (extractFile commits ?cm) files (initialRanges commits) = Inr m" by blast
  from foldE_member [OF m f] obtain t t' where "extractFile commits ?cm f t = Inr t'" by blast
  from foldE_member [OF this [unfolded extractFile_def] h] obtain u u' where
    "extractHunk commits ?cm (filePath f) h u = Inr u'" by blast
  from extractHunk_Inr [OF this] obtain st where
    fo: "foldE (\<lambda>j. scanLine (filePath f) (id_h h) commits ?cm j (?ls ! j)) [0..<effLen ?ls]
           (initState h u) = Inr st" by blast
  from changed_before_effLen [OF i ch] have "i \<in> set [0..<effLen ?ls]" by simp
  from foldE_member [OF fo this] obtain v v' where
    "scanLine (filePath f) (id_h h) commits ?cm i (?ls ! i) v = Inr v'" by blast
  with scanLine_throws [OF ch] show ?thesis
    by (cases "commitFor commits ?cm (id_h h, int i)") auto
qed

lemma empty_plan_throws:
  assumes f: "f \<in> set files" and h: "h \<in> set (hunks f)"
    and i: "i < length (split_nl (content h))" and ch: "isChange (split_nl (content h) ! i)"
    and n: "buildClassificationMap cls (id_h h, int i) = None"
  shows "extractChanges files [] cls = Inl TypeError"
proof (cases "extractChanges files [] cls")
  case (Inl e)
  then show ?thesis by (cases e) simp
next
  case (Inr changes)
  from extract_reaches_line [OF Inr f h i ch] n show ?thesis
    by (simp add: commitFor_def firstCommitId_def)
qed

lemma unclassified_in_first_group:
  assumes ne: "commits \<noteq> []"
    and ch: "extractChanges files commits cls = Inr changes"
    and f: "f \<in> set files" and h: "h \<in> set (hunks f)"
    and i: "i < length (split_nl (content h))" and c: "isChange (split_nl (content h) ! i)"
    and n: "buildClassificationMap cls (id_h h, int i) = None"
  shows "commitId (hd changes) = id_p (hd commits)
         \<and> (\<exists>r \<in> set (rangesFor (hd changes) (filePath f)).
               covers r (id_h h) i \<and> type_r r = lineType (split_nl (content h) ! i))"
proof -
  let ?cm = "buildClassificationMap cls"
  from ne obtain c0 cs where cs: "commits = c0 # cs" by (cases commits) auto
  from extractChanges_Inr [OF ch] obtain m where
    m: "foldE (extractFile commits ?cm) files (initialRanges commits) = Inr m"
    and out: "mapE (toCommitChanges m) commits = Inr changes" by blast
  from first_group [OF out [unfolded cs]] have t: "toCommitChanges m c0 = Inr (hd changes)" .
  from covered_in_group [OF ne m f h i c]
    cidOf_unclassified [where cm = ?cm and hid = "id_h h" and i = i and ?c0.0 = c0 and cs = cs, OF n]
  obtain r where r: "r \<in> set (rangesAt m (id_p c0) (filePath f))"
    and cv: "covers r (id_h h) i \<and> type_r r = lineType (split_nl (content h) ! i)"
    unfolding cs by auto
  from toCommitChanges_Inr(5) [OF t] r have "r \<in> set (rangesFor (hd changes) (filePath f))"
    by blast
  with cv toCommitChanges_Inr(1) [OF t] cs show ?thesis by auto
qed

text \<open>
  C7, as amended. Take a changed line for which the classification map has no entry.
  With a nonempty plan, whenever the partitioning returns, the line is assigned to the
  first group of the plan: the first entry of the result carries the id of the first plan
  entry and holds, for the file of the line, a range of the line's hunk and type that
  covers its index. With a nonempty plan the partitioning returns whenever every entry of
  the classification names a group of the plan. On the empty plan it throws.
\<close>

theorem C7_unclassified_line_goes_to_first_group:
  assumes "f \<in> set files" and "h \<in> set (hunks f)"
    and "i < length (split_nl (content h))" and "isChange (split_nl (content h) ! i)"
    and "buildClassificationMap classifications (id_h h, int i) = None"
  shows "(commits \<noteq> [] \<and> extractChanges files commits classifications = Inr changes
            \<longrightarrow> commitId (hd changes) = id_p (hd commits)
                \<and> (\<exists>r \<in> set (rangesFor (hd changes) (filePath f)).
                      covers r (id_h h) i \<and> type_r r = lineType (split_nl (content h) ! i)))
         \<and> (commits \<noteq> [] \<and> named commits classifications
            \<longrightarrow> (\<exists>result. extractChanges files commits classifications = Inr result))
         \<and> extractChanges files [] classifications = Inl TypeError"
proof -
  have a: "commitId (hd changes) = id_p (hd commits)
           \<and> (\<exists>r \<in> set (rangesFor (hd changes) (filePath f)).
                 covers r (id_h h) i \<and> type_r r = lineType (split_nl (content h) ! i))"
    if "commits \<noteq> [] \<and> extractChanges files commits classifications = Inr changes"
  proof -
    from that have ne: "commits \<noteq> []"
      and ex: "extractChanges files commits classifications = Inr changes" by simp_all
    from ne ex assms show ?thesis by (rule unclassified_in_first_group)
  qed
  have b: "\<exists>result. extractChanges files commits classifications = Inr result"
    if "commits \<noteq> [] \<and> named commits classifications"
  proof -
    from that have ne: "commits \<noteq> []" and nm: "named commits classifications" by simp_all
    from ne nm show ?thesis by (rule extractChanges_total)
  qed
  from assms have c: "extractChanges files [] classifications = Inl TypeError"
    by (rule empty_plan_throws)
  from a b c show ?thesis by blast
qed

theorem C7_witness:
  "exFile \<in> set [exFile] \<and> exHunk \<in> set (hunks exFile)
   \<and> 2 < length (split_nl (content exHunk)) \<and> isChange (split_nl (content exHunk) ! 2)
   \<and> buildClassificationMap exClassStale (id_h exHunk, int 2) = None
   \<and> exPlan \<noteq> [] \<and> \<not> named exPlan exClassStale
   \<and> extractChanges [exFile] exPlan exClassStale = Inr exStaleChanges
   \<and> commitId (hd exStaleChanges) = id_p (hd exPlan)
   \<and> (\<exists>r \<in> set (rangesFor (hd exStaleChanges) (filePath exFile)).
         covers r (id_h exHunk) 2 \<and> type_r r = lineType (split_nl (content exHunk) ! 2))
   \<and> extractChanges [exFile] [] exClassStale = Inl TypeError
   \<and> buildClassificationMap exClass (id_h exHunk, int 2) = None
   \<and> named exPlan exClass
   \<and> (\<exists>result. extractChanges [exFile] exPlan exClass = Inr result)"
proof -
  have h3: "exFile \<in> set [exFile]" by simp
  have h4: "exHunk \<in> set (hunks exFile)" by (simp add: exFile_def)
  have h5: "2 < length (split_nl (content exHunk))" by code_simp
  have h6: "isChange (split_nl (content exHunk) ! 2)" by code_simp
  have h7: "buildClassificationMap exClassStale (id_h exHunk, int 2) = None" by code_simp
  have h7': "buildClassificationMap exClass (id_h exHunk, int 2) = None" by code_simp
  have h1: "exPlan \<noteq> []" by code_simp
  have h2: "\<not> named exPlan exClassStale" by code_simp
  have h2': "named exPlan exClass" by code_simp
  have e: "extractChanges [exFile] exPlan exClassStale = Inr exStaleChanges" by code_simp
  note t = C7_unclassified_line_goes_to_first_group [OF h3 h4 h5 h6 h7,
      where commits = exPlan and changes = exStaleChanges]
  note t' = C7_unclassified_line_goes_to_first_group [OF h3 h4 h5 h6 h7',
      where commits = exPlan and changes = exStaleChanges]
  from t h1 e have a: "commitId (hd exStaleChanges) = id_p (hd exPlan)
     \<and> (\<exists>r \<in> set (rangesFor (hd exStaleChanges) (filePath exFile)).
         covers r (id_h exHunk) 2 \<and> type_r r = lineType (split_nl (content exHunk) ! 2))"
    by blast
  from t have b: "extractChanges [exFile] [] exClassStale = Inl TypeError" by blast
  from t' h1 h2' have c: "\<exists>result. extractChanges [exFile] exPlan exClass = Inr result" by blast
  from a have a1: "commitId (hd exStaleChanges) = id_p (hd exPlan)"
    and a2: "\<exists>r \<in> set (rangesFor (hd exStaleChanges) (filePath exFile)).
         covers r (id_h exHunk) 2 \<and> type_r r = lineType (split_nl (content exHunk) ! 2)"
    by blast+
  from h3 h4 h5 h6 h7 h1 h2 e a1 a2 b h7' h2' c show ?thesis by (intro conjI)
qed

theorem C7_counterexample:
  "isChange (split_nl (content exNewHunk) ! 0)
   \<and> buildClassificationMap [] (id_h exNewHunk, 0) = None
   \<and> extractChanges [exNewFile] [] [] = Inl TypeError"
  by code_simp

section \<open>Adjacent lines of one group\<close>











section \<open>The before-state of an introduction\<close>

lemma fold_fileStates_untouched:
  assumes "\<And>file c. fileStates (step file c) = (fileStates c)(filePath file \<mapsto> v file)"
  shows "p \<notin> filePath ` set fs \<Longrightarrow> fileStates (fold step fs c) p = fileStates c p"
  by (induction fs arbitrary: c) (simp_all add: assms)

lemma fold_fileStates_last:
  assumes st: "\<And>file c. fileStates (step file c) = (fileStates c)(filePath file \<mapsto> v file)"
  shows "distinct (map filePath fs) \<Longrightarrow> f \<in> set fs \<Longrightarrow>
         fileStates (fold step fs c) (filePath f) = Some (v f)"
proof (induction fs arbitrary: c)
  case Nil
  then show ?case by simp
next
  case (Cons g gs)
  show ?case
  proof (cases "f = g")
    case True
    with Cons.prems(1) have "filePath g \<notin> filePath ` set gs" by auto
    from fold_fileStates_untouched [where step = step and v = v, OF st this, of "step g c"] True
    show ?thesis by (simp add: st)
  next
    case False
    with Cons.prems have "distinct (map filePath gs)" "f \<in> set gs" by simp_all
    from Cons.IH [OF this] show ?thesis by simp
  qed
qed

lemma initializeContext_original:
  assumes "distinct (map filePath files)" "flaggedNew files p"
  shows "originalOf (initializeContext getFile files commitHash) p = []"
proof -
  from assms(2) obtain f where f: "f \<in> set files" "filePath f = p"
    "isNewFileHeader (fileHeader f)"
    unfolding flaggedNew_def list_ex_iff by blast
  let ?v = "\<lambda>file. if isNewFileHeader (fileHeader file) then []
                   else (case getFile (commitHash @ ''~1'') (filePath file) of
                           Some text \<Rightarrow> text | None \<Rightarrow> [])"
  have "fileStates (initializeContext getFile files commitHash) (filePath f) = Some (?v f)"
    unfolding initializeContext_def
    by (rule fold_fileStates_last [where v = ?v, OF _ assms(1) f(1)]) simp
  with f(2,3) show ?thesis by (simp add: originalOf_def)
qed

lemma fileChangeStep_emptyInv:
  assumes faithful: "answersEmptyOnEqual genDiff"
    and fi: "flagInv files (fst sp)" and ei: "emptyInv files (fst sp)"
  shows "emptyInv files (fst (fileChangeStep genDiff files fc sp))"
proof (cases sp)
  case (Pair st parts)
  show ?thesis
  proof (cases "find (\<lambda>f. filePath f = filePath_f fc) files")
    case None
    with ei show ?thesis by (simp add: fileChangeStep_def Pair)
  next
    case (Some fl)
    let ?path = "filePath_f fc"
    let ?orig = "originalOf (ctx st) ?path"
    let ?prev = "prevRangesOf st ?path"
    define cur where "cur = currentContent ?orig (hunks fl) ?prev"
    define tgt where "tgt = buildFileContent ?orig (hunks fl) (?prev @ ranges fc)"
    define new where "new = (?path \<in> newFiles (ctx st) \<and> ?path \<notin> createdInPatch (ctx st))"
    define d where "d = genDiff ?path cur tgt new"
    define c where "c = \<lparr>path_d = ?path, before_d = cur, after_d = tgt, isNewFile_d = new,
                            diff_d = d\<rparr>"
    define st' where "st' = fst (fileChangeStep genDiff files fc sp)"
    have "st' = st\<lparr>ctx := (if d \<noteq> [] \<and> new
                             then (ctx st)\<lparr>createdInPatch := insert ?path (createdInPatch (ctx st))\<rparr>
                             else ctx st),
                     cumulativeRangesByFile :=
                       (cumulativeRangesByFile st)(?path \<mapsto> ?prev @ ranges fc),
                     diffCalls := diffCalls st @ [c]\<rparr>"
      unfolding st'_def c_def d_def new_def cur_def tgt_def
      by (simp add: fileChangeStep_def Pair Some Let_def)
    then have calls: "diffCalls st' = diffCalls st @ [c]"
      and orig: "originalOf (ctx st') = originalOf (ctx st)"
      and prev: "prevRangesOf st' = (\<lambda>q. if q = ?path then ?prev @ ranges fc else prevRangesOf st q)"
      by (simp_all add: originalOf_def prevRangesOf_def fun_eq_iff)
    from fi have n: "newFiles (ctx st) = {p. flaggedNew files p}"
      and cr: "createdInPatch (ctx st) = {p. flaggedNew files p \<and> introducedIn (diffCalls st) p}"
      by (simp_all add: flagInv_def Pair)
    have new: "new = (flaggedNew files ?path \<and> \<not> introducedIn (diffCalls st) ?path)"
      unfolding new_def n cr by blast
    from ei have e1: "\<And>p. flaggedNew files p \<Longrightarrow> originalOf (ctx st) p = []"
      and e2: "\<And>p fl. flaggedNew files p \<Longrightarrow> \<not> introducedIn (diffCalls st) p \<Longrightarrow>
                 find (\<lambda>f. filePath f = p) files = Some fl \<Longrightarrow>
                 currentContent (originalOf (ctx st) p) (hunks fl) (prevRangesOf st p) = []"
      and e3: "\<And>c. c \<in> set (diffCalls st) \<Longrightarrow> isNewFile_d c \<Longrightarrow>
                 before_d c = [] \<and> (diff_d c \<noteq> [] \<longrightarrow> after_d c \<noteq> [])"
      unfolding emptyInv_def Pair fst_conv by blast+
    have curE: "cur = []" if new
      using that e2 [of ?path fl] Some unfolding new cur_def by simp
    have dE: "d = [] \<longleftrightarrow> cur = tgt"
      unfolding d_def using faithful by (simp add: answersEmptyOnEqual_def)
    have i: "introducedIn (diffCalls st @ [c]) q
             = (introducedIn (diffCalls st) q \<or> (q = ?path \<and> d \<noteq> []))" for q
      by (auto simp: introducedIn_def c_def)
    have a1: "originalOf (ctx st') p = []" if "flaggedNew files p" for p
      using e1 [OF that] by (simp add: orig)
    have a2: "currentContent (originalOf (ctx st') q) (hunks fl') (prevRangesOf st' q) = []"
      if q: "flaggedNew files q" and ni: "\<not> introducedIn (diffCalls st') q"
        and fd: "find (\<lambda>f. filePath f = q) files = Some fl'" for q fl'
    proof (cases "q = ?path")
      case False
      with ni have "\<not> introducedIn (diffCalls st) q" by (simp add: calls i)
      from e2 [OF q this fd] False show ?thesis by (simp add: orig prev)
    next
      case True
      with fd Some have fl: "fl' = fl" by simp
      from ni True have ni0: "\<not> introducedIn (diffCalls st) ?path" and d0: "d = []"
        by (simp_all add: calls i)
      from q True ni0 have "new" by (simp add: new)
      from curE [OF this] d0 dE have t0: "tgt = []" by simp
      show ?thesis
      proof (cases "?prev @ ranges fc = []")
        case True
        with e1 [of ?path] q \<open>q = ?path\<close> show ?thesis
          by (simp add: orig prev currentContent_def)
      next
        case False
        with t0 \<open>q = ?path\<close> fl show ?thesis
          by (simp add: orig prev currentContent_def tgt_def)
      qed
    qed
    have a3: "before_d x = [] \<and> (diff_d x \<noteq> [] \<longrightarrow> after_d x \<noteq> [])"
      if x: "x \<in> set (diffCalls st')" and nx: "isNewFile_d x" for x
    proof (cases "x = c")
      case True
      with nx have "new" by (simp add: c_def)
      from curE [OF this] dE show ?thesis unfolding True by (auto simp: c_def)
    next
      case False
      with x have "x \<in> set (diffCalls st)" by (simp add: calls)
      from e3 [OF this nx] show ?thesis .
    qed
    from a1 a2 a3 have "emptyInv files st'" unfolding emptyInv_def by blast
    then show ?thesis by (simp only: st'_def)
  qed
qed

lemma fileChanges_bothInv:
  assumes faithful: "answersEmptyOnEqual genDiff"
  shows "flagInv files (fst sp) \<and> emptyInv files (fst sp) \<Longrightarrow>
         flagInv files (fst (fold (fileChangeStep genDiff files) fcs sp))
         \<and> emptyInv files (fst (fold (fileChangeStep genDiff files) fcs sp))"
proof (induction fcs arbitrary: sp)
  case Nil
  then show ?case by simp
next
  case (Cons fc fcs)
  from Cons.prems have "flagInv files (fst (fileChangeStep genDiff files fc sp))
      \<and> emptyInv files (fst (fileChangeStep genDiff files fc sp))"
    using fileChangeStep_flagInv fileChangeStep_emptyInv [OF faithful] by blast
  from Cons.IH [OF this] show ?case by simp
qed

lemma commits_bothInv:
  assumes faithful: "answersEmptyOnEqual genDiff"
  shows "flagInv files (fst sr) \<and> emptyInv files (fst sr) \<Longrightarrow>
         flagInv files (fst (fold (commitStep genDiff files) ccs sr))
         \<and> emptyInv files (fst (fold (commitStep genDiff files) ccs sr))"
proof (induction ccs arbitrary: sr)
  case Nil
  then show ?case by simp
next
  case (Cons cc ccs)
  obtain st rs where sr: "sr = (st, rs)" by (cases sr)
  obtain st1 p1 where f: "fold (fileChangeStep genDiff files) (fileChanges cc) (st, []) = (st1, p1)"
    by (cases "fold (fileChangeStep genDiff files) (fileChanges cc) (st, [])")
  from Cons.prems sr have "flagInv files (fst (st, [])) \<and> emptyInv files (fst (st, []))" by simp
  from fileChanges_bothInv [OF faithful this, of "fileChanges cc"] f
  have "flagInv files st1 \<and> emptyInv files st1" by simp
  moreover have "fst (commitStep genDiff files cc sr) = st1" by (simp add: commitStep_def sr f)
  ultimately have "flagInv files (fst (commitStep genDiff files cc sr))
      \<and> emptyInv files (fst (commitStep genDiff files cc sr))" by simp
  from Cons.IH [OF this] show ?case by simp
qed

lemma buildPatches_introductions:
  assumes faithful: "answersEmptyOnEqual genDiff"
    and dp: "distinct (map filePath files)"
    and c: "c \<in> set (callsOf getFile genDiff files ccs commitHash)" and n: "isNewFile_d c"
  shows "before_d c = [] \<and> (diff_d c \<noteq> [] \<longrightarrow> after_d c \<noteq> [])"
proof -
  let ?s0 = "\<lparr>ctx = initializeContext getFile files commitHash,
              cumulativeRangesByFile = Map.empty, diffCalls = []\<rparr>"
  have f0: "flagInv files ?s0"
    by (simp add: flagInv_def initializeContext_newFiles introducedIn_def flagsRight_def)
  have e0: "emptyInv files ?s0"
    by (simp add: emptyInv_def initializeContext_original [OF dp] prevRangesOf_def
          currentContent_def)
  from f0 e0 have "flagInv files (fst (?s0, [])) \<and> emptyInv files (fst (?s0, []))" by simp
  from commits_bothInv [OF faithful this, of ccs]
  have "emptyInv files (fst (buildPatchesRun getFile genDiff files ccs commitHash))"
    by (simp add: buildPatchesRun_def)
  with c n show ?thesis unfolding emptyInv_def callsOf_def by blast
qed

text \<open>
  C5, as amended. In the sequence of calls of the diff generator that a run of
  \<^verbatim>\<open>buildPatches\<close> makes, a call is flagged as the introduction of a new file exactly
  when the file is flagged as newly created in the diff and no earlier call for the same
  path was answered with a nonempty fragment. So the flag is set on every call for such a
  file up to and including the earliest one that is answered with a nonempty fragment,
  and on no later one: after a call that was flagged and answered with a nonempty
  fragment, every call for the same path is an ordinary modification. When the paths of
  the files of the diff are pairwise distinct and the generator answers the empty string
  exactly on equal contents, every flagged call has an empty before-state, and a flagged
  call that is answered with a nonempty fragment has a nonempty after-state.
\<close>

theorem C5_new_file_flag_until_first_fragment:
  "(\<forall>j < length (callsOf getFile genDiff files commitChanges commitHash).
      isNewFile_d (callsOf getFile genDiff files commitChanges commitHash ! j)
      = (flaggedNew files (path_d (callsOf getFile genDiff files commitChanges commitHash ! j))
         \<and> \<not> introducedIn (take j (callsOf getFile genDiff files commitChanges commitHash))
               (path_d (callsOf getFile genDiff files commitChanges commitHash ! j))))
   \<and> (\<forall>j < length (callsOf getFile genDiff files commitChanges commitHash). \<forall>i < j.
        path_d (callsOf getFile genDiff files commitChanges commitHash ! i)
          = path_d (callsOf getFile genDiff files commitChanges commitHash ! j)
        \<and> isNewFile_d (callsOf getFile genDiff files commitChanges commitHash ! i)
        \<and> diff_d (callsOf getFile genDiff files commitChanges commitHash ! i) \<noteq> []
        \<longrightarrow> \<not> isNewFile_d (callsOf getFile genDiff files commitChanges commitHash ! j))
   \<and> (distinct (map filePath files) \<and> answersEmptyOnEqual genDiff
        \<longrightarrow> (\<forall>j < length (callsOf getFile genDiff files commitChanges commitHash).
              isNewFile_d (callsOf getFile genDiff files commitChanges commitHash ! j)
              \<longrightarrow> before_d (callsOf getFile genDiff files commitChanges commitHash ! j) = []
                  \<and> (diff_d (callsOf getFile genDiff files commitChanges commitHash ! j) \<noteq> []
                       \<longrightarrow> after_d (callsOf getFile genDiff files commitChanges commitHash ! j)
                             \<noteq> [])))"
proof -
  let ?calls = "callsOf getFile genDiff files commitChanges commitHash"
  have p1: "\<forall>j < length ?calls.
      isNewFile_d (?calls ! j)
      = (flaggedNew files (path_d (?calls ! j))
         \<and> \<not> introducedIn (take j ?calls) (path_d (?calls ! j)))"
    using flagsRight_nth [OF buildPatches_flags] by blast
  have p2: "\<forall>j < length ?calls. \<forall>i < j.
        path_d (?calls ! i) = path_d (?calls ! j) \<and> isNewFile_d (?calls ! i)
        \<and> diff_d (?calls ! i) \<noteq> []
        \<longrightarrow> \<not> isNewFile_d (?calls ! j)"
  proof (intro allI impI)
    fix j i
    assume j: "j < length ?calls" and i: "i < j"
      and h: "path_d (?calls ! i) = path_d (?calls ! j) \<and> isNewFile_d (?calls ! i)
              \<and> diff_d (?calls ! i) \<noteq> []"
    from i j have "?calls ! i \<in> set (take j ?calls)" by (rule nth_in_take)
    with h have "introducedIn (take j ?calls) (path_d (?calls ! j))"
      unfolding introducedIn_def list_ex_iff by blast
    with flagsRight_nth [OF buildPatches_flags j]
    show "\<not> isNewFile_d (?calls ! j)" by simp
  qed
  have p3: "distinct (map filePath files) \<and> answersEmptyOnEqual genDiff
        \<longrightarrow> (\<forall>j < length ?calls.
              isNewFile_d (?calls ! j)
              \<longrightarrow> before_d (?calls ! j) = []
                  \<and> (diff_d (?calls ! j) \<noteq> [] \<longrightarrow> after_d (?calls ! j) \<noteq> []))"
  proof (intro allI impI)
    fix j
    assume a: "distinct (map filePath files) \<and> answersEmptyOnEqual genDiff"
      and j: "j < length ?calls" and n: "isNewFile_d (?calls ! j)"
    from a have dp: "distinct (map filePath files)" and fg: "answersEmptyOnEqual genDiff"
      by simp_all
    from j have "?calls ! j \<in> set ?calls" by simp
    from buildPatches_introductions [OF fg dp this n]
    show "before_d (?calls ! j) = []
          \<and> (diff_d (?calls ! j) \<noteq> [] \<longrightarrow> after_d (?calls ! j) \<noteq> [])" .
  qed
  from p1 p2 p3 show ?thesis by (intro conjI)
qed

theorem C5_witness:
  "(2::nat) < length exNewCalls
   \<and> map isNewFile_d exNewCalls = [True, True, False, False]
   \<and> map diff_d exNewCalls = ['''', ''<>\<newline>a.'', '''', '''']
   \<and> path_d (exNewCalls ! 1) = path_d (exNewCalls ! 2)
   \<and> isNewFile_d (exNewCalls ! 1) \<and> diff_d (exNewCalls ! 1) \<noteq> []
   \<and> \<not> isNewFile_d (exNewCalls ! 2)
   \<and> isNewFile_d (exNewCalls ! 1)
       = (flaggedNew [exNewFile] (path_d (exNewCalls ! 1))
          \<and> \<not> introducedIn (take 1 exNewCalls) (path_d (exNewCalls ! 1)))
   \<and> distinct (map filePath [exNewFile]) \<and> answersEmptyOnEqual exGen
   \<and> before_d (exNewCalls ! 1) = [] \<and> after_d (exNewCalls ! 1) \<noteq> []"
proof -
  have n: "map isNewFile_d exNewCalls = [True, True, False, False]" by code_simp
  have d: "map diff_d exNewCalls = ['''', ''<>\<newline>a.'', '''', '''']" by code_simp
  have l: "(2::nat) < length exNewCalls" "(1::nat) < length exNewCalls" by code_simp+
  have o: "(1::nat) < 2" by simp
  have p: "path_d (exNewCalls ! 1) = path_d (exNewCalls ! 2)" by code_simp
  have i: "isNewFile_d (exNewCalls ! 1)" by code_simp
  have f: "diff_d (exNewCalls ! 1) \<noteq> []" by code_simp
  have dp: "distinct (map filePath [exNewFile])" by simp
  have fg: "answersEmptyOnEqual exGen" by (simp add: answersEmptyOnEqual_def exGen_def)
  note t = C5_new_file_flag_until_first_fragment
    [where getFile = exProvider and genDiff = exGen and files = "[exNewFile]"
       and commitChanges = "exNewChanges @ exNewChanges" and commitHash = "''abc''",
     folded exNewCalls_def]
  from t have a: "\<forall>j < length exNewCalls.
      isNewFile_d (exNewCalls ! j)
      = (flaggedNew [exNewFile] (path_d (exNewCalls ! j))
         \<and> \<not> introducedIn (take j exNewCalls) (path_d (exNewCalls ! j)))" by (rule conjunct1)
  from t [THEN conjunct2] have b: "\<forall>j < length exNewCalls. \<forall>i < j.
        path_d (exNewCalls ! i) = path_d (exNewCalls ! j)
        \<and> isNewFile_d (exNewCalls ! i) \<and> diff_d (exNewCalls ! i) \<noteq> []
        \<longrightarrow> \<not> isNewFile_d (exNewCalls ! j)" by (rule conjunct1)
  from t [THEN conjunct2, THEN conjunct2] dp fg
  have c: "\<forall>j < length exNewCalls.
              isNewFile_d (exNewCalls ! j)
              \<longrightarrow> before_d (exNewCalls ! j) = []
                  \<and> (diff_d (exNewCalls ! j) \<noteq> [] \<longrightarrow> after_d (exNewCalls ! j) \<noteq> [])"
    by blast
  from b [rule_format, OF l(1) o] p i f have x: "\<not> isNewFile_d (exNewCalls ! 2)" by blast
  from a [rule_format, OF l(2)] have y: "isNewFile_d (exNewCalls ! 1)
       = (flaggedNew [exNewFile] (path_d (exNewCalls ! 1))
          \<and> \<not> introducedIn (take 1 exNewCalls) (path_d (exNewCalls ! 1)))" .
  from c [rule_format, OF l(2) i] f
  have z: "before_d (exNewCalls ! 1) = []" "after_d (exNewCalls ! 1) \<noteq> []" by blast+
  from l(1) n d p i f x y dp fg z show ?thesis by (intro conjI)
qed

theorem C5_counterexample:
  "flaggedNew [exNewFile] ''N''
   \<and> (case extractChanges [exNewFile] exPlan exNewClass of
        Inl e \<Rightarrow> False
      | Inr changes \<Rightarrow>
          map (\<lambda>c. (path_d c, before_d c, after_d c, isNewFile_d c, diff_d c))
            (callsOf exProvider exGen [exNewFile] changes ''abc'')
          = [(''N'', '''', '''', True, ''''),
             (''N'', '''', ''\<newline>a'', True, ''<>\<newline>a.'')])"
  by code_simp

lemma digitOf_digitChar: "k < 10 \<Longrightarrow> digitOf (digitChar k) = k"
proof -
  assume "k < 10"
  then have "k \<in> {0, 1, 2, 3, 4, 5, 6, 7, 8, 9}" by auto
  then show ?thesis by (elim insertE emptyE) (simp_all add: digitOf_def digitChar_def)
qed

lemma decimal_snoc: "decimal (ds @ [d]) = 10 * decimal ds + digitOf d"
  by (simp add: decimal_def)

lemma decimal_showNat: "decimal (showNat n) = n"
proof (induction n rule: showNat.induct)
  case (1 n)
  show ?case
  proof (cases "n < 10")
    case True
    then show ?thesis by (simp add: showNat_small decimal_def digitOf_digitChar)
  next
    case False
    with 1 have "decimal (showNat (n div 10)) = n div 10" by simp
    with False show ?thesis by (simp add: showNat_big decimal_snoc digitOf_digitChar)
  qed
qed

lemma digitVal_digitOf:
  assumes "isDigit c"
  shows "digitVal c = digitOf c"
proof -
  have "\<forall>d \<in> set ''0123456789''. digitVal d = digitOf d"
    by (simp add: digitVal_def digitOf_def)
  with assms show ?thesis unfolding isDigit_def by blast
qed

lemma parseInt_snoc: "parseInt (ds @ [d]) = 10 * parseInt ds + digitVal d"
  by (simp add: parseInt_def)

lemma parseInt_decimal: "(\<And>c. c \<in> set ds \<Longrightarrow> isDigit c) \<Longrightarrow> parseInt ds = decimal ds"
proof (induction ds rule: rev_induct)
  case Nil
  show ?case by (simp add: parseInt_def decimal_def)
next
  case (snoc d ds)
  then show ?case by (simp add: parseInt_snoc decimal_snoc digitVal_digitOf)
qed

lemma take4_prefix: "(take 4 s = ''@@ -'') = prefix ''@@ -'' s"
proof
  assume a: "take 4 s = ''@@ -''"
  have "s = take 4 s @ drop 4 s" by simp
  with a have "s = ''@@ -'' @ drop 4 s" by (simp only:)
  then show "prefix ''@@ -'' s" by (rule prefixI)
next
  assume "prefix ''@@ -'' s"
  then obtain t where "s = ''@@ -'' @ t" by (rule prefixE)
  then show "take 4 s = ''@@ -''" by simp
qed

lemma matchOriginalStart_hit:
  assumes "prefix ''@@ -'' s \<and> takeWhile isDigit (drop 4 s) \<noteq> []"
  shows "matchOriginalStart s = Some (takeWhile isDigit (drop 4 s))"
proof (cases s)
  case Nil
  with assms show ?thesis by simp
next
  case (Cons a list)
  from assms have "take 4 (a # list) = ''@@ -'' \<and> takeWhile isDigit (drop 4 (a # list)) \<noteq> []"
    unfolding Cons take4_prefix .
  then show ?thesis unfolding Cons matchOriginalStart.simps by (rule if_P)
qed

lemma matchOriginalStart_miss:
  assumes "\<not> (prefix ''@@ -'' (c # cs) \<and> takeWhile isDigit (drop 4 (c # cs)) \<noteq> [])"
  shows "matchOriginalStart (c # cs) = matchOriginalStart cs"
proof -
  from assms have "\<not> (take 4 (c # cs) = ''@@ -'' \<and> takeWhile isDigit (drop 4 (c # cs)) \<noteq> [])"
    unfolding take4_prefix .
  then show ?thesis unfolding matchOriginalStart.simps by (rule if_not_P)
qed

lemma declaredStart_hit:
  assumes "prefix ''@@ -'' s \<and> takeWhile isDigit (drop 4 s) \<noteq> []"
  shows "declaredStart s = decimal (takeWhile isDigit (drop 4 s))"
proof (cases s)
  case Nil
  with assms show ?thesis by simp
next
  case (Cons a list)
  from assms show ?thesis unfolding Cons declaredStart.simps by (rule if_P)
qed

lemma declaredStart_miss:
  assumes "\<not> (prefix ''@@ -'' (c # cs) \<and> takeWhile isDigit (drop 4 (c # cs)) \<noteq> [])"
  shows "declaredStart (c # cs) = declaredStart cs"
  using assms unfolding declaredStart.simps by (rule if_not_P)

lemma hunkStartLine_declared: "hunkStartLine h = int (declaredStart (header h)) - 1"
proof -
  have "(case matchOriginalStart s of Some ds \<Rightarrow> int (parseInt ds) - 1 | None \<Rightarrow> 0)
        = int (declaredStart s) - 1" for s
  proof (induction s)
    case Nil
    show ?case by simp
  next
    case (Cons c cs)
    let ?s = "c # cs"
    let ?ds = "takeWhile isDigit (drop 4 ?s)"
    have pd: "parseInt ?ds = decimal ?ds"
      by (rule parseInt_decimal) (rule set_takeWhileD [THEN conjunct2])
    show ?case
    proof (cases "prefix ''@@ -'' ?s \<and> ?ds \<noteq> []")
      case True
      show ?thesis
        unfolding matchOriginalStart_hit [OF True] declaredStart_hit [OF True]
        by (simp only: option.case pd)
    next
      case False
      show ?thesis
        unfolding matchOriginalStart_miss [OF False] declaredStart_miss [OF False]
        by (rule Cons)
    qed
  qed
  then show ?thesis by (simp add: hunkStartLine_def)
qed

lemma declaredStart_header:
  assumes "\<not> isDigit c"
  shows "declaredStart (''@@ -'' @ showNat n @ c # rest) = n"
proof -
  let ?s = "''@@ -'' @ showNat n @ c # rest"
  have t: "takeWhile isDigit (showNat n @ c # rest) = showNat n"
    using assms by (simp add: showNat_digits)
  have d: "drop 4 ?s = showNat n @ c # rest" by simp
  have p: "prefix ''@@ -'' ?s" by (rule prefixI) (rule refl)
  from p showNat_nonempty [of n]
  have "prefix ''@@ -'' ?s \<and> takeWhile isDigit (drop 4 ?s) \<noteq> []"
    by (simp only: d t) simp
  from declaredStart_hit [OF this] show ?thesis by (simp only: d t decimal_showNat)
qed

lemma absLine_amended: "absLine b l s = amendedLine b l s"
proof (cases s)
  case (Pair out rest)
  show ?thesis
  proof (cases l)
    case Nil
    then show ?thesis by (simp add: absLine_empty amendedLine_def)
  next
    case (Cons c t)
    show ?thesis
      unfolding Pair Cons
      by (cases rest) (simp_all add: absLine_def amendedLine_def startsWith_def slice1_def)
  qed
qed

lemma absLines_amended: "absLines sel i ls s = amendedLines sel i ls s"
  by (induction ls arbitrary: i s) (simp_all add: absLine_amended)

lemma amendedLine_rest: "length (snd (amendedLine b l s)) \<le> length (snd s)"
proof (cases s)
  case (Pair out rest)
  show ?thesis
  proof (cases l)
    case Nil
    then show ?thesis by (simp add: amendedLine_def)
  next
    case (Cons c t)
    show ?thesis
      unfolding Pair Cons by (cases rest) (simp_all add: amendedLine_def)
  qed
qed

lemma amendedLines_rest: "length (snd (amendedLines sel i ls s)) \<le> length (snd s)"
proof (induction ls arbitrary: i s)
  case Nil
  show ?case by simp
next
  case (Cons l ls)
  have "length (snd (amendedLines sel (Suc i) ls (amendedLine (sel i) l s)))
        \<le> length (snd (amendedLine (sel i) l s))" by (rule Cons)
  also have "\<dots> \<le> length (snd s)" by (rule amendedLine_rest)
  finally show ?case by simp
qed

lemma amendedHunk_rest: "length (snd (amendedHunk orig rs h s)) \<le> length (snd s)"
proof (cases s)
  case (Pair out rest)
  let ?k = "(declaredStart (header h) - 1) - (length orig - length rest)"
  have "length (snd (amendedLines (isSelected rs (id_h h)) 0 (split_nl (content h))
                      (out @ take ?k rest, drop ?k rest)))
        \<le> length (snd (out @ take ?k rest, drop ?k rest))" by (rule amendedLines_rest)
  also have "\<dots> \<le> length rest" by simp
  finally show ?thesis by (simp add: amendedHunk_def Pair Let_def)
qed

lemma absHunk_amended:
  assumes "length (snd s) \<le> length orig"
  shows "absHunk orig rs h s = amendedHunk orig rs h s"
proof (cases s)
  case (Pair out rest)
  with assms have le: "length rest \<le> length orig" by simp
  have k: "nat (hunkStartLine h - (int (length orig) - int (length rest)))
           = (declaredStart (header h) - 1) - (length orig - length rest)"
    unfolding hunkStartLine_declared using le by arith
  show ?thesis
    unfolding absHunk_def amendedHunk_def Pair prod.case Let_def k absLines_amended ..
qed

lemma fold_absHunk_amended:
  "length (snd s) \<le> length orig \<Longrightarrow>
   fold (absHunk orig rs) hs s = fold (amendedHunk orig rs) hs s"
proof (induction hs arbitrary: s)
  case Nil
  show ?case by simp
next
  case (Cons h hs)
  have "length (snd (amendedHunk orig rs h s)) \<le> length (snd s)" by (rule amendedHunk_rest)
  with Cons.prems have "length (snd (amendedHunk orig rs h s)) \<le> length orig" by arith
  from Cons.IH [OF this] show ?case by (simp add: absHunk_amended [OF Cons.prems])
qed

lemma absReplay_amended: "absReplay oc hs rs = amendedReplay oc hs rs"
  unfolding absReplay_def amendedReplay_def
  by (subst fold_absHunk_amended) simp_all

lemma buildFileContent_amended: "buildFileContent oc hs rs = amendedReplay oc hs rs"
  unfolding buildFileContent_abs by (rule absReplay_amended)

lemma specLines_amended:
  "specLines sel i ls s = Some s' \<Longrightarrow> amendedLines sel i ls s = s'"
proof (induction ls arbitrary: i s)
  case Nil
  then show ?case by simp
next
  case (Cons l ls)
  from Cons.prems obtain m where m: "specLine (sel i) l s = Some m"
    and r: "specLines sel (Suc i) ls m = Some s'"
    by (auto split: option.splits)
  from m have "amendedLine (sel i) l s = m" by (simp add: amendedLine_def)
  with Cons.IH [OF r] show ?case by simp
qed

lemma specHunk_amended:
  "specHunk orig rs h s = Some s' \<Longrightarrow> amendedHunk orig rs h s = s'"
  by (cases s) (simp add: specHunk_def amendedHunk_def Let_def specLines_amended)

lemma specHunks_amended:
  "specHunks orig rs hs s = Some s' \<Longrightarrow> fold (amendedHunk orig rs) hs s = s'"
proof (induction hs arbitrary: s)
  case Nil
  then show ?case by simp
next
  case (Cons h hs)
  from Cons.prems obtain m where m: "specHunk orig rs h s = Some m"
    and r: "specHunks orig rs hs m = Some s'"
    by (auto split: option.splits)
  from specHunk_amended [OF m] Cons.IH [OF r] show ?case by simp
qed

lemma specReplay_amended:
  "specReplay oc hs rs = Some r \<Longrightarrow> amendedReplay oc hs rs = r"
  unfolding specReplay_def amendedReplay_def
  by (auto split: option.splits prod.splits dest: specHunks_amended)

section \<open>The code against the replay\<close>

text \<open>
  C2, as amended. \<^verbatim>\<open>buildFileContent\<close> is a function of the original content, the hunks and
  the selected ranges alone. It goes through the hunks in order; before each hunk it
  copies the original lines that lie before the start which the header of the hunk
  declares (for a header \<^verbatim>\<open>@@ -n\<close> followed by something that is not a digit, the first
  \<open>n - 1\<close> lines) and are not yet consumed; then, for each line of the hunk, an
  addition is included if and only if its index lies in a selected range of that hunk, a
  removal consumes one original line and copies it if and only if its index is not
  selected, and a context line copies and consumes one original line; after the last hunk
  the remaining original lines are copied. A removal or a context line that finds no
  original line left copies and consumes nothing. Whenever every removal and context line
  finds an original line, the result is the one of the replay read strictly.
\<close>

theorem C2_buildFileContent_is_replay:
  "buildFileContent originalContent hunkList selectedRanges
     = amendedReplay originalContent hunkList selectedRanges
   \<and> (\<forall>r. specReplay originalContent hunkList selectedRanges = Some r
          \<longrightarrow> buildFileContent originalContent hunkList selectedRanges = r)
   \<and> (\<not> isDigit c \<longrightarrow> declaredStart (''@@ -'' @ showNat n @ c # rest) = n)"
proof -
  have p1: "buildFileContent originalContent hunkList selectedRanges
            = amendedReplay originalContent hunkList selectedRanges"
    by (rule buildFileContent_amended)
  have p2: "\<forall>r. specReplay originalContent hunkList selectedRanges = Some r
          \<longrightarrow> buildFileContent originalContent hunkList selectedRanges = r"
    unfolding p1 by (intro allI impI) (rule specReplay_amended)
  have p3: "\<not> isDigit c \<longrightarrow> declaredStart (''@@ -'' @ showNat n @ c # rest) = n"
    by (intro impI) (rule declaredStart_header)
  from p1 p2 p3 show ?thesis by (intro conjI)
qed

theorem C2_witness:
  "specReplay ''a\<newline>b\<newline>e'' [exHunk] exSelection = Some ''a\<newline>c\<newline>d\<newline>e''
   \<and> buildFileContent ''a\<newline>b\<newline>e'' [exHunk] exSelection = ''a\<newline>c\<newline>d\<newline>e''
   \<and> amendedReplay ''a\<newline>b\<newline>e'' [exHunk] exSelection = ''a\<newline>c\<newline>d\<newline>e''
   \<and> \<not> isDigit CHR '',''
   \<and> declaredStart (header exHunk) = 1"
proof -
  note t = C2_buildFileContent_is_replay
    [where originalContent = "''a\<newline>b\<newline>e''" and hunkList = "[exHunk]"
       and selectedRanges = exSelection and c = "CHR '',''" and n = 1
       and rest = "''3 +1,4 @@''"]
  have s: "specReplay ''a\<newline>b\<newline>e'' [exHunk] exSelection = Some ''a\<newline>c\<newline>d\<newline>e''"
    by code_simp
  have d: "\<not> isDigit CHR '',''" by code_simp
  have h: "''@@ -'' @ showNat 1 @ CHR '','' # ''3 +1,4 @@'' = header exHunk" by code_simp
  from t s have b: "buildFileContent ''a\<newline>b\<newline>e'' [exHunk] exSelection = ''a\<newline>c\<newline>d\<newline>e''"
    by blast
  from t b have a: "amendedReplay ''a\<newline>b\<newline>e'' [exHunk] exSelection = ''a\<newline>c\<newline>d\<newline>e''"
    by simp
  from t d have "declaredStart (''@@ -'' @ showNat 1 @ CHR '','' # ''3 +1,4 @@'') = 1"
    by blast
  then have e: "declaredStart (header exHunk) = 1" unfolding h .
  from s b a d e show ?thesis by (intro conjI)
qed

text \<open>
  The replay read strictly has no result on a hunk of two context lines over an original
  content of one line: the second context line finds no original line to copy. The code
  returns the one original line.
\<close>

theorem C2_counterexample:
  "split_nl (content exShortHunk) = ['' a'', '' b'']
   \<and> contentLines ''a'' = [''a'']
   \<and> specReplay ''a'' [exShortHunk] [] = None
   \<and> buildFileContent ''a'' [exShortHunk] [] = ''a''"
  by code_simp

section \<open>Replay of a full selection\<close>





section \<open>The union of the ranges of every group\<close>




section \<open>The states of a file along the calls\<close>













section \<open>The round trip\<close>






end
